theory Spec2Isabelle
  imports Main "HOL-Library.Sublist" "HOL-Library.AList" "HOL-Library.Product_Lexorder"
begin

section \<open>Configuration state and compliance engine\<close>

text \<open>
  A shallow embedding of \<^verbatim>\<open>tools/configuration.py\<close> and of the result envelope of
  \<^verbatim>\<open>models/tool_io.py\<close>. Calls to the logger have no effect on any returned value
  or on the stored snapshots and are left out. What the module calls outside the
  repository is modelled beside it: \<^verbatim>\<open>re\<close> as a parameter, \<^verbatim>\<open>pathlib\<close> paths
  by their components, the file system and GitPython as an interface with an in-memory
  instance, and \<^verbatim>\<open>difflib.unified_diff\<close> from the algorithm of the standard library.
\<close>

subsection \<open>Exceptions and the tool envelope\<close>

text \<open>
  Python exceptions are values. Every constructor is a subclass of \<^verbatim>\<open>Exception\<close>;
  \<open>GitCommandError\<close> is the only class that \<^verbatim>\<open>commit_config\<close> catches, and
  \<open>FileNotFoundError\<close> is the subclass of \<open>OSError\<close> that \<^verbatim>\<open>pathlib\<close> tells apart.
\<close>

datatype exn =
    GitCommandError string
  | ValueError string
  | OSError string
  | FileNotFoundError string
  | ReError string
  | OtherError string

record tool_error =
  message :: string
  code :: "string option"
  details :: "(string \<times> string) list option"

record config_backup_result =
  device :: string
  path :: string
  commit_hash :: "string option"

record config_drift_output =
  drift_device :: string
  is_drifted :: bool
  diff :: "string option"

record compliance_rule =
  rule_id :: string
  description :: string
  pattern :: string
  mode :: string

record compliance_violation =
  violation_rule_id :: string
  rule_description :: string
  violating_line :: "string option"
  violation_type :: string

record compliance_report =
  policy_name :: string
  is_compliant :: bool
  violations :: "compliance_violation list"

text \<open>
  The payload of a \<^verbatim>\<open>ToolOutput\<close> is typed \<^verbatim>\<open>Any\<close>. The values that occur are
  \<^verbatim>\<open>None\<close>, a string, one of the three result models, or some other object handed in
  by an injected fetcher (type \<open>'d\<close>).
\<close>

datatype 'd py_value =
    PyNone
  | PyStr string
  | PyObj 'd
  | BackupResult config_backup_result
  | DriftOutput config_drift_output
  | Report compliance_report

record 'd tool_output =
  success :: bool
  data :: "'d py_value"
  error :: "tool_error option"

definition ok :: "'d py_value \<Rightarrow> 'd tool_output" where
  "ok d = \<lparr>success = True, data = d, error = None\<rparr>"

definition fail :: "string \<Rightarrow> (string \<times> string) list option \<Rightarrow> 'd tool_output" where
  "fail msg dets =
     \<lparr>success = False, data = PyNone,
      error = Some \<lparr>message = msg, code = None, details = dets\<rparr>\<rparr>"

subsection \<open>Regular expressions\<close>

text \<open>
  The \<^verbatim>\<open>re\<close> module is a parameter of the model. \<open>re_compile p multiline\<close> is
  \<^verbatim>\<open>re.compile(p)\<close> or \<^verbatim>\<open>re.compile(p, re.MULTILINE)\<close> and raises on a malformed
  pattern; \<open>finditer rx s\<close> lists \<^verbatim>\<open>match.group(0)\<close> of the successive non-overlapping
  matches of \<^verbatim>\<open>rx.finditer(s)\<close>; \<open>search rx s\<close> tells whether \<^verbatim>\<open>rx.search(s)\<close>
  finds a match.
\<close>

record 'rx regex_engine =
  re_compile :: "string \<Rightarrow> bool \<Rightarrow> exn + 'rx"
  finditer :: "'rx \<Rightarrow> string \<Rightarrow> string list"
  search :: "'rx \<Rightarrow> string \<Rightarrow> bool"

text \<open>
  An engine for concrete runs: every pattern is read as a literal string, which is what
  \<^verbatim>\<open>re\<close> does with a pattern free of metacharacters. \<open>literal_scan p k s\<close> walks
  \<open>s\<close> from the left, \<open>k\<close> being the number of characters still covered by the last
  match, so that matches do not overlap.
\<close>

fun literal_scan :: "string \<Rightarrow> nat \<Rightarrow> string \<Rightarrow> string list" where
  "literal_scan p k [] = []"
| "literal_scan p k (c # cs) =
     (if 0 < k then literal_scan p (k - 1) cs
      else if prefix p (c # cs) then p # literal_scan p (length p - 1) cs
      else literal_scan p 0 cs)"

definition literal_finditer :: "string \<Rightarrow> string \<Rightarrow> string list" where
  "literal_finditer p s =
     (if p = [] then replicate (Suc (length s)) [] else literal_scan p 0 s)"

definition literal_engine :: "string regex_engine" where
  "literal_engine =
     \<lparr>re_compile = (\<lambda>p multiline. Inr p),
      finditer = literal_finditer,
      search = (\<lambda>p s. literal_finditer p s \<noteq> [])\<rparr>"

subsection \<open>Compliance audit\<close>

text \<open>
  \<^verbatim>\<open>ComplianceAuditTool\<close>: \<open>policy_rules\<close> is the dictionary of registered rule sets
  (\<^verbatim>\<open>policy_rules or {}\<close>), \<open>rule_loader\<close> the optional loader, which may raise.
\<close>

record compliance_audit_tool =
  policy_rules :: "string \<rightharpoonup> compliance_rule list"
  rule_loader :: "(string \<Rightarrow> exn + compliance_rule list) option"

definition missing_required :: "compliance_rule \<Rightarrow> compliance_violation" where
  "missing_required r =
     \<lparr>violation_rule_id = rule_id r, rule_description = description r,
      violating_line = None, violation_type = ''missing_required''\<rparr>"

definition found_forbidden :: "compliance_rule \<Rightarrow> string \<Rightarrow> compliance_violation" where
  "found_forbidden r m =
     \<lparr>violation_rule_id = rule_id r, rule_description = description r,
      violating_line = Some m, violation_type = ''found_forbidden''\<rparr>"

text \<open>The inner loop \<^verbatim>\<open>for match in matches: violations.append(...)\<close>.\<close>

fun append_matches ::
  "compliance_rule \<Rightarrow> string list \<Rightarrow> compliance_violation list \<Rightarrow> compliance_violation list"
where
  "append_matches r [] vs = vs"
| "append_matches r (m # ms) vs = append_matches r ms (vs @ [found_forbidden r m])"

text \<open>
  The loop \<^verbatim>\<open>for rule in rules\<close> with the list \<^verbatim>\<open>violations\<close> as accumulator. A
  pattern that does not compile raises out of the loop (\<^verbatim>\<open>re.error\<close> is not caught).
\<close>

fun audit_rules ::
  "'rx regex_engine \<Rightarrow> string \<Rightarrow> compliance_rule list \<Rightarrow> compliance_violation list
     \<Rightarrow> exn + compliance_violation list"
where
  "audit_rules eng config_content [] vs = Inr vs"
| "audit_rules eng config_content (r # rs) vs =
     (case re_compile eng (pattern r) True of
        Inl e \<Rightarrow> Inl e
      | Inr rx \<Rightarrow>
          (let matches = finditer eng rx config_content in
           if mode r = ''required'' \<and> matches = []
             then audit_rules eng config_content rs (vs @ [missing_required r])
           else if mode r = ''forbidden'' \<and> matches \<noteq> []
             then audit_rules eng config_content rs (append_matches r matches vs)
           else audit_rules eng config_content rs vs))"

text \<open>
  Rule resolution, lines 229 to 237: the registered set, else the loader's rules, then
  the extra rules. \<open>Inl e\<close> says that the loader raised \<open>e\<close>, which
  \<^verbatim>\<open>audit_config\<close> catches and turns into a failure.
\<close>

definition resolve_rules ::
  "compliance_audit_tool \<Rightarrow> string \<Rightarrow> compliance_rule list option
     \<Rightarrow> exn + compliance_rule list"
where
  "resolve_rules tool pname extra_rules =
     (let rules = (case policy_rules tool pname of None \<Rightarrow> [] | Some rs \<Rightarrow> rs);
          loaded =
            (if rules = [] \<and> rule_loader tool \<noteq> None
             then (case the (rule_loader tool) pname of
                     Inl e \<Rightarrow> Inl e
                   | Inr found \<Rightarrow> Inr (rules @ found))
             else Inr rules)
      in case loaded of
           Inl e \<Rightarrow> Inl e
         | Inr rules1 \<Rightarrow>
             (case extra_rules of
                None \<Rightarrow> Inr rules1
              | Some ex \<Rightarrow> (if ex \<noteq> [] then Inr (rules1 @ ex) else Inr rules1)))"

definition audit_config ::
  "'rx regex_engine \<Rightarrow> compliance_audit_tool \<Rightarrow> string \<Rightarrow> string
     \<Rightarrow> compliance_rule list option \<Rightarrow> exn + 'd tool_output"
where
  "audit_config eng tool config_content pname extra_rules =
     (case resolve_rules tool pname extra_rules of
        Inl e \<Rightarrow>
          Inr (fail ''Failed to load compliance rules'' (Some [(''policy'', pname)]))
      | Inr rules \<Rightarrow>
          (if rules = [] then
             Inr (fail ''No compliance rules defined'' (Some [(''policy'', pname)]))
           else
             (case audit_rules eng config_content rules [] of
                Inl e \<Rightarrow> Inl e
              | Inr vs \<Rightarrow>
                  Inr (ok (Report \<lparr>policy_name = pname, is_compliant = (vs = []),
                                   violations = vs\<rparr>)))))"

subsection \<open>Paths\<close>

text \<open>
  A \<^verbatim>\<open>pathlib\<close> path on a POSIX system: whether it is absolute, and its components.
  \<open>path_of_string\<close> is \<^verbatim>\<open>Path(s)\<close> (empty and \<^verbatim>\<open>.\<close> components are dropped),
  \<open>joinpath\<close> the operator \<^verbatim>\<open>/\<close> with a string (an absolute right operand replaces
  the left one), \<open>path_str\<close> is \<^verbatim>\<open>str(p)\<close>, and \<open>relative_to\<close> raises
  \<^verbatim>\<open>ValueError\<close> when the other path is not a prefix. The text of the exception is
  not Python's, and a leading double slash is read as a single one.
\<close>

datatype path = Path (absolute: bool) (names: "string list")

fun split_slash :: "string \<Rightarrow> string \<Rightarrow> string list" where
  "split_slash acc [] = [acc]"
| "split_slash acc (c # cs) =
     (if c = CHR ''/'' then acc # split_slash [] cs else split_slash (acc @ [c]) cs)"

definition path_of_string :: "string \<Rightarrow> path" where
  "path_of_string s =
     Path (s \<noteq> [] \<and> hd s = CHR ''/'')
          (filter (\<lambda>n. n \<noteq> [] \<and> n \<noteq> ''.'') (split_slash [] s))"

definition joinpath :: "path \<Rightarrow> string \<Rightarrow> path" where
  "joinpath p s =
     (let q = path_of_string s in
      if absolute q then q else Path (absolute p) (names p @ names q))"

fun join_slash :: "string list \<Rightarrow> string" where
  "join_slash [] = []"
| "join_slash [n] = n"
| "join_slash (n # ns) = n @ ''/'' @ join_slash ns"

definition path_str :: "path \<Rightarrow> string" where
  "path_str p =
     (if absolute p then ''/'' @ join_slash (names p)
      else if names p = [] then ''.'' else join_slash (names p))"

definition relative_to :: "path \<Rightarrow> path \<Rightarrow> exn + path" where
  "relative_to p other =
     (if absolute p = absolute other \<and> prefix (names other) (names p)
      then Inr (Path False (drop (length (names other)) (names p)))
      else Inl (ValueError (path_str p @ '' is not in the subpath of '' @ path_str other)))"


subsection \<open>Filesystem and versioning backend\<close>

text \<open>
  The operating system and GitPython are reached through the operations that
  \<^verbatim>\<open>commit_config\<close> calls. Each takes the state \<open>'w\<close> of the world (files on disk,
  the repository) and returns the new state with its result; \<open>Inl\<close> is a raised
  exception. \<open>mkdir_parents\<close> is \<^verbatim>\<open>Path.mkdir(parents=True, exist_ok=True)\<close>,
  \<open>is_dirty\<close> is \<^verbatim>\<open>Repo.is_dirty(index=True, working_tree=False, untracked_files=True)\<close>,
  \<open>index_commit\<close> returns the \<^verbatim>\<open>hexsha\<close> of the new commit.
\<close>

record 'w backend =
  mkdir_parents :: "path \<Rightarrow> 'w \<Rightarrow> (exn + unit) \<times> 'w"
  write_text :: "path \<Rightarrow> string \<Rightarrow> 'w \<Rightarrow> (exn + unit) \<times> 'w"
  working_tree_dir :: "'w \<Rightarrow> string option"
  index_add :: "string list \<Rightarrow> 'w \<Rightarrow> (exn + unit) \<times> 'w"
  is_dirty :: "'w \<Rightarrow> (exn + bool) \<times> 'w"
  index_commit :: "string \<Rightarrow> 'w \<Rightarrow> (exn + string) \<times> 'w"

text \<open>
  \<^verbatim>\<open>VersionControlTool\<close>: \<open>has_repo\<close> says that \<^verbatim>\<open>_try_load_repo\<close> returned a
  repository (\<^verbatim>\<open>self._repo is not None\<close>).
\<close>

record version_control_tool =
  repo_path :: path
  has_repo :: bool

text \<open>
  Line 67: the path handed to the index, relative to the working tree when the
  repository has one. \<^verbatim>\<open>relative_to\<close> raises \<^verbatim>\<open>ValueError\<close> outside the
  \<^verbatim>\<open>try\<close> block.
\<close>

definition rel_path :: "'w backend \<Rightarrow> 'w \<Rightarrow> path \<Rightarrow> exn + string" where
  "rel_path env w file_path =
     (case working_tree_dir env w of
        None \<Rightarrow> Inr (path_str file_path)
      | Some d \<Rightarrow>
          (if d = [] then Inr (path_str file_path)
           else (case relative_to file_path (path_of_string d) of
                   Inl e \<Rightarrow> Inl e
                 | Inr p \<Rightarrow> Inr (path_str p))))"

text \<open>
  Lines 68 to 77, the \<^verbatim>\<open>try\<close> block: stage, commit when dirty. The result is the
  commit hash, or the exception that left the block.
\<close>

definition stage_and_commit ::
  "'w backend \<Rightarrow> string \<Rightarrow> string \<Rightarrow> 'w \<Rightarrow> (exn + string option) \<times> 'w"
where
  "stage_and_commit env rel commit_message w =
     (case index_add env [rel] w of
        (Inl e, w1) \<Rightarrow> (Inl e, w1)
      | (Inr _, w1) \<Rightarrow>
          (case is_dirty env w1 of
             (Inl e, w2) \<Rightarrow> (Inl e, w2)
           | (Inr dirty, w2) \<Rightarrow>
               (if dirty then
                  (case index_commit env commit_message w2 of
                     (Inl e, w3) \<Rightarrow> (Inl e, w3)
                   | (Inr hexsha, w3) \<Rightarrow> (Inr (Some hexsha), w3))
                else (Inr None, w2))))"

definition commit_config ::
  "'w backend \<Rightarrow> version_control_tool \<Rightarrow> string \<Rightarrow> string \<Rightarrow> string \<Rightarrow> 'w
     \<Rightarrow> (exn + 'd tool_output) \<times> 'w"
where
  "commit_config env tool dev config_content commit_message w =
     (let config_dir = joinpath (repo_path tool) ''configs'' in
      case mkdir_parents env config_dir w of
        (Inl e, w1) \<Rightarrow> (Inl e, w1)
      | (Inr _, w1) \<Rightarrow>
          (let file_path = joinpath config_dir (dev @ ''.cfg'') in
           case write_text env file_path config_content w1 of
             (Inl e, w2) \<Rightarrow> (Inl e, w2)
           | (Inr _, w2) \<Rightarrow>
               (let finish = (\<lambda>h. ok (BackupResult
                      \<lparr>device = dev, path = path_str file_path, commit_hash = h\<rparr>)) in
                if has_repo tool then
                  (case rel_path env w2 file_path of
                     Inl e \<Rightarrow> (Inl e, w2)
                   | Inr rel \<Rightarrow>
                       (case stage_and_commit env rel commit_message w2 of
                          (Inl (GitCommandError m), w3) \<Rightarrow> (Inr (finish None), w3)
                        | (Inl e, w3) \<Rightarrow> (Inl e, w3)
                        | (Inr h, w3) \<Rightarrow> (Inr (finish h), w3)))
                else (Inr (finish None), w2))))"

subsection \<open>Backup\<close>

text \<open>
  What the injected fetcher hands back: a \<^verbatim>\<open>ToolOutput\<close> or a bare value.
\<close>

datatype 'd fetched = Wrapped "'d tool_output" | Raw "'d py_value"

record 'd config_backup_tool =
  config_fetcher :: "string \<Rightarrow> exn + 'd fetched"
  version_control :: version_control_tool
  serializer :: "('d py_value \<Rightarrow> exn + string) option"

text \<open>
  \<open>json_dumps\<close> stands for \<^verbatim>\<open>json.dumps(_, indent=2, sort_keys=True)\<close> and \<open>now\<close>
  for \<^verbatim>\<open>datetime.utcnow().isoformat()\<close>.
\<close>

definition backup_config ::
  "'w backend \<Rightarrow> ('d py_value \<Rightarrow> exn + string) \<Rightarrow> string \<Rightarrow> 'd config_backup_tool
     \<Rightarrow> string \<Rightarrow> 'w \<Rightarrow> (exn + 'd tool_output) \<times> 'w"
where
  "backup_config env json_dumps now tool dev w =
     (case config_fetcher tool dev of
        Inl e \<Rightarrow> (Inl e, w)
      | Inr fetched \<Rightarrow>
          (case (case fetched of
                   Wrapped out \<Rightarrow> (if \<not> success out then Inl out else Inr (data out))
                 | Raw v \<Rightarrow> Inr v) of
             Inl out \<Rightarrow> (Inr out, w)
           | Inr config_content \<Rightarrow>
               (if config_content = PyNone then
                  (Inr (fail ''No configuration content returned'' (Some [(''device'', dev)])), w)
                else
                  (case (case config_content of
                           PyStr s \<Rightarrow> Inr s
                         | _ \<Rightarrow> (case serializer tool of
                                   None \<Rightarrow> json_dumps config_content
                                 | Some f \<Rightarrow> f config_content)) of
                     Inl e \<Rightarrow> (Inl e, w)
                   | Inr text \<Rightarrow>
                       commit_config env (version_control tool) dev text
                         (''AUTOBACKUP: Configuration backup for '' @ dev @ '' @ '' @ now @ ''Z'')
                         w))))"

subsection \<open>An in-memory filesystem and repository\<close>

text \<open>
  A world for concrete runs: directories and files by path, and a non-bare repository
  with its working tree, its index (\<open>staged\<close>), the tree of the last commit
  (\<open>head_tree\<close>, empty before the first commit) and its commits. The index and the
  trees map paths relative to the working tree to file contents. Directories and files
  are kept under resolved paths; there are no symbolic links, permissions or ignore
  rules, and the versioning calls of this repository do not fail.
\<close>

text \<open>Decimal digits of a number, as \<^verbatim>\<open>str.format\<close> prints it.\<close>

fun show_nat :: "nat \<Rightarrow> string" where
  "show_nat n =
     (if n < 10 then [''0123456789'' ! n]
      else show_nat (n div 10) @ [''0123456789'' ! (n mod 10)])"

declare show_nat.simps [simp del]

record sim_world =
  dirs :: "path list"
  files :: "(path \<times> string) list"
  worktree :: path
  staged :: "(string \<times> string) list"
  head_tree :: "(string \<times> string) list"
  history :: "(string \<times> string) list"

text \<open>
  How the operating system resolves a path, one component after the other:
  \<^verbatim>\<open>..\<close> leads to the parent of the directory reached so far, any other name to its
  entry of that name, which has to be a directory. The root, the current directory and
  the directories above the current one exist always; a relative path stands for itself
  below the current directory.
\<close>

definition is_dir :: "sim_world \<Rightarrow> path \<Rightarrow> bool" where
  "is_dir w p =
     (names p = [] \<or> (\<not> absolute p \<and> set (names p) \<subseteq> {''..''}) \<or> p \<in> set (dirs w))"

definition parent_dir :: "path \<Rightarrow> path" where
  "parent_dir p =
     (if names p = [] then (if absolute p then p else Path False [''..''])
      else if last (names p) = ''..'' then Path (absolute p) (names p @ [''..''])
      else Path (absolute p) (butlast (names p)))"

definition child :: "path \<Rightarrow> string \<Rightarrow> path" where
  "child d n = (if n = ''..'' then parent_dir d else Path (absolute d) (names d @ [n]))"

fun walk :: "sim_world \<Rightarrow> path \<Rightarrow> string list \<Rightarrow> exn + path" where
  "walk w cur [] = Inr cur"
| "walk w cur (n # ns) =
     (if n = ''..'' \<or> is_dir w (child cur n) then walk w (child cur n) ns
      else if map_of (files w) (child cur n) \<noteq> None then Inl (OSError ''Not a directory'')
      else Inl (FileNotFoundError ''No such file or directory''))"

text \<open>\<^verbatim>\<open>Path.is_dir()\<close>: the whole path resolves to a directory.\<close>

definition path_is_dir :: "sim_world \<Rightarrow> path \<Rightarrow> bool" where
  "path_is_dir w p =
     (case walk w (Path (absolute p) []) (names p) of Inl e \<Rightarrow> False | Inr d \<Rightarrow> True)"

text \<open>
  \<^verbatim>\<open>os.mkdir\<close>: the parent has to resolve to a directory and the last name must be
  free there.
\<close>

definition os_mkdir :: "path \<Rightarrow> sim_world \<Rightarrow> (exn + unit) \<times> sim_world" where
  "os_mkdir p w =
     (if names p = [] then (Inl (OSError ''File exists''), w)
      else
        (case walk w (Path (absolute p) []) (butlast (names p)) of
           Inl e \<Rightarrow> (Inl e, w)
         | Inr d \<Rightarrow>
             (let t = child d (last (names p)) in
              if last (names p) = ''..'' \<or> is_dir w t \<or> map_of (files w) t \<noteq> None
              then (Inl (OSError ''File exists''), w)
              else (Inr (), w\<lparr>dirs := t # dirs w\<rparr>))))"

text \<open>
  \<^verbatim>\<open>Path.mkdir(parents=True, exist_ok=True)\<close> as \<^verbatim>\<open>pathlib\<close> writes it: try
  \<^verbatim>\<open>os.mkdir\<close>; on \<^verbatim>\<open>FileNotFoundError\<close> make the parent the same way and try once
  more without \<^verbatim>\<open>parents\<close>; on another \<^verbatim>\<open>OSError\<close> raise unless the path is a
  directory.
\<close>

definition is_not_found :: "exn \<Rightarrow> bool" where
  "is_not_found e = (case e of FileNotFoundError m \<Rightarrow> True | _ \<Rightarrow> False)"

function sim_mkdir :: "path \<Rightarrow> sim_world \<Rightarrow> (exn + unit) \<times> sim_world" where
  "sim_mkdir p w =
     (case os_mkdir p w of
        (Inr u, w1) \<Rightarrow> (Inr (), w1)
      | (Inl e, w1) \<Rightarrow>
          (if is_not_found e then
             (if names p = [] then (Inl e, w1)
              else
                (case sim_mkdir (Path (absolute p) (butlast (names p))) w1 of
                   (Inl e2, w2) \<Rightarrow> (Inl e2, w2)
                 | (Inr u, w2) \<Rightarrow>
                     (case os_mkdir p w2 of
                        (Inr u, w3) \<Rightarrow> (Inr (), w3)
                      | (Inl e3, w3) \<Rightarrow>
                          (if is_not_found e3 then (Inl e3, w3)
                           else if path_is_dir w3 p then (Inr (), w3) else (Inl e3, w3)))))
           else if path_is_dir w1 p then (Inr (), w1) else (Inl e, w1)))"
  by pat_completeness auto
termination
  by (relation "measure (\<lambda>(p, w). length (names p))") auto

declare sim_mkdir.simps [simp del]

text \<open>
  \<^verbatim>\<open>Path.write_text\<close>: the file is created or overwritten in the directory that the
  parent resolves to.
\<close>

definition sim_write_text :: "path \<Rightarrow> string \<Rightarrow> sim_world \<Rightarrow> (exn + unit) \<times> sim_world" where
  "sim_write_text p content w =
     (if names p = [] then (Inl (OSError ''Is a directory''), w)
      else
        (case walk w (Path (absolute p) []) (butlast (names p)) of
           Inl e \<Rightarrow> (Inl e, w)
         | Inr d \<Rightarrow>
             (let f = child d (last (names p)) in
              if last (names p) = ''..'' \<or> is_dir w f then (Inl (OSError ''Is a directory''), w)
              else (Inr (), w\<lparr>files := AList.update f content (files w)\<rparr>))))"

text \<open>The content of the regular file that a path resolves to, if there is one.\<close>

definition read_file :: "sim_world \<Rightarrow> path \<Rightarrow> string option" where
  "read_file w p =
     (if names p = [] \<or> last (names p) = ''..'' then None
      else
        (case walk w (Path (absolute p) []) (butlast (names p)) of
           Inl e \<Rightarrow> None
         | Inr d \<Rightarrow> map_of (files w) (child d (last (names p)))))"

text \<open>
  \<^verbatim>\<open>index.add\<close>: each path is taken relative to the working tree and is the key of
  its entry as it is given.
\<close>

fun sim_index_add :: "string list \<Rightarrow> sim_world \<Rightarrow> (exn + unit) \<times> sim_world" where
  "sim_index_add [] w = (Inr (), w)"
| "sim_index_add (rel # rels) w =
     (case read_file w (joinpath (worktree w) rel) of
        None \<Rightarrow> (Inl (FileNotFoundError ''No such file or directory''), w)
      | Some content \<Rightarrow> sim_index_add rels (w\<lparr>staged := AList.update rel content (staged w)\<rparr>))"

text \<open>Files of the working tree, outside \<^verbatim>\<open>.git\<close>, that the index does not hold.\<close>

definition untracked_files :: "sim_world \<Rightarrow> path list" where
  "untracked_files w =
     filter (\<lambda>p. absolute p = absolute (worktree w)
                \<and> strict_prefix (names (worktree w)) (names p)
                \<and> names p ! length (names (worktree w)) \<noteq> ''.git''
                \<and> map_of (staged w)
                     (path_str (Path False (drop (length (names (worktree w))) (names p)))) = None)
            (map fst (files w))"

definition tree_eq :: "(string \<times> string) list \<Rightarrow> (string \<times> string) list \<Rightarrow> bool" where
  "tree_eq a b = (\<forall>k \<in> set (map fst a @ map fst b). map_of a k = map_of b k)"

definition sim_is_dirty :: "sim_world \<Rightarrow> (exn + bool) \<times> sim_world" where
  "sim_is_dirty w = (Inr (\<not> tree_eq (staged w) (head_tree w) \<or> untracked_files w \<noteq> []), w)"

definition sim_index_commit :: "string \<Rightarrow> sim_world \<Rightarrow> (exn + string) \<times> sim_world" where
  "sim_index_commit commit_message w =
     (let hexsha = ''commit-'' @ show_nat (Suc (length (history w))) in
      (Inr hexsha,
       w\<lparr>head_tree := staged w, history := history w @ [(hexsha, commit_message)]\<rparr>))"

definition sim_backend :: "sim_world backend" where
  "sim_backend =
     \<lparr>mkdir_parents = sim_mkdir,
      write_text = sim_write_text,
      working_tree_dir = (\<lambda>w. Some (path_str (worktree w))),
      index_add = sim_index_add,
      is_dirty = sim_is_dirty,
      index_commit = sim_index_commit\<rparr>"

text \<open>A repository at \<^verbatim>\<open>/srv/repo\<close> with nothing committed, and the same with a stray file.\<close>

definition fresh_world :: sim_world where
  "fresh_world =
     \<lparr>dirs = [Path True [''srv''], Path True [''srv'', ''repo'']], files = [],
      worktree = Path True [''srv'', ''repo''], staged = [], head_tree = [], history = []\<rparr>"

definition stray_world :: sim_world where
  "stray_world = fresh_world\<lparr>files := [(Path True [''srv'', ''repo'', ''notes.txt''], ''todo'')]\<rparr>"

definition repo_tool :: version_control_tool where
  "repo_tool = \<lparr>repo_path = Path True [''srv'', ''repo''], has_repo = True\<rparr>"

definition plain_tool :: version_control_tool where
  "plain_tool = \<lparr>repo_path = Path True [''srv'', ''repo''], has_repo = False\<rparr>"

subsection \<open>difflib\<close>

text \<open>
  \<^verbatim>\<open>difflib.unified_diff\<close> as \<^verbatim>\<open>detect_drift\<close> calls it: sequences of lines, no junk
  predicate, \<^verbatim>\<open>autojunk\<close> on, three lines of context, empty line terminator and no file
  dates. \<open>b2j b elt\<close> is \<^verbatim>\<open>b2j.get(elt, [])\<close> after \<^verbatim>\<open>__chain_b\<close>: the indices of
  \<open>elt\<close> in \<open>b\<close> in increasing order, or nothing for an element that the popularity
  heuristic has dropped.
\<close>

definition b2j :: "'a list \<Rightarrow> 'a \<Rightarrow> nat list" where
  "b2j b elt =
     (let idxs = filter (\<lambda>j. b ! j = elt) [0..<length b] in
      if 200 \<le> length b \<and> length b div 100 + 1 < length idxs then [] else idxs)"

text \<open>
  \<^verbatim>\<open>find_longest_match\<close>. The inner loop over the indices \<open>j\<close> of one row \<open>i\<close>, with
  \<^verbatim>\<open>continue\<close> below \<open>blo\<close> and \<^verbatim>\<open>break\<close> from \<open>bhi\<close> on; the state is
  \<^verbatim>\<open>newj2len\<close> and the best match so far.
\<close>

fun match_row ::
  "nat \<Rightarrow> nat \<Rightarrow> nat \<Rightarrow> (nat \<rightharpoonup> nat) \<Rightarrow> nat list
     \<Rightarrow> (nat \<rightharpoonup> nat) \<times> nat \<times> nat \<times> nat \<Rightarrow> (nat \<rightharpoonup> nat) \<times> nat \<times> nat \<times> nat"
where
  "match_row i blo bhi j2len [] st = st"
| "match_row i blo bhi j2len (j # js) (newj2len, besti, bestj, bestsize) =
     (if j < blo then match_row i blo bhi j2len js (newj2len, besti, bestj, bestsize)
      else if bhi \<le> j then (newj2len, besti, bestj, bestsize)
      else
        (let k = (case (if j = 0 then None else j2len (j - 1)) of None \<Rightarrow> 0 | Some l \<Rightarrow> l) + 1 in
         if bestsize < k
         then match_row i blo bhi j2len js (newj2len(j \<mapsto> k), i + 1 - k, j + 1 - k, k)
         else match_row i blo bhi j2len js (newj2len(j \<mapsto> k), besti, bestj, bestsize)))"

text \<open>The outer loop \<^verbatim>\<open>for i in range(alo, ahi)\<close>.\<close>

fun match_rows ::
  "'a list \<Rightarrow> 'a list \<Rightarrow> nat \<Rightarrow> nat \<Rightarrow> nat list
     \<Rightarrow> (nat \<rightharpoonup> nat) \<times> nat \<times> nat \<times> nat \<Rightarrow> nat \<times> nat \<times> nat"
where
  "match_rows a b blo bhi [] (j2len, best) = best"
| "match_rows a b blo bhi (i # rows) (j2len, best) =
     match_rows a b blo bhi rows (match_row i blo bhi j2len (b2j b (a ! i)) (Map.empty, best))"

text \<open>
  The two loops that extend the match by equal elements on both sides. Without a junk
  predicate the set \<^verbatim>\<open>bjunk\<close> is empty, so the two loops over junk do nothing.
\<close>

function extend_back ::
  "'a list \<Rightarrow> 'a list \<Rightarrow> nat \<Rightarrow> nat \<Rightarrow> nat \<times> nat \<times> nat \<Rightarrow> nat \<times> nat \<times> nat"
where
  "extend_back a b alo blo (besti, bestj, bestsize) =
     (if alo < besti \<and> blo < bestj \<and> a ! (besti - 1) = b ! (bestj - 1)
      then extend_back a b alo blo (besti - 1, bestj - 1, bestsize + 1)
      else (besti, bestj, bestsize))"
  by pat_completeness auto
termination
  by (relation "measure (\<lambda>(a, b, alo, blo, besti, bestj, bestsize). besti)") auto

function extend_forward ::
  "'a list \<Rightarrow> 'a list \<Rightarrow> nat \<Rightarrow> nat \<Rightarrow> nat \<times> nat \<times> nat \<Rightarrow> nat \<times> nat \<times> nat"
where
  "extend_forward a b ahi bhi (besti, bestj, bestsize) =
     (if besti + bestsize < ahi \<and> bestj + bestsize < bhi
         \<and> a ! (besti + bestsize) = b ! (bestj + bestsize)
      then extend_forward a b ahi bhi (besti, bestj, bestsize + 1)
      else (besti, bestj, bestsize))"
  by pat_completeness auto
termination
  by (relation "measure (\<lambda>(a, b, ahi, bhi, besti, bestj, bestsize). ahi - (besti + bestsize))") auto

declare extend_back.simps [simp del] extend_forward.simps [simp del]

definition find_longest_match ::
  "'a list \<Rightarrow> 'a list \<Rightarrow> nat \<Rightarrow> nat \<Rightarrow> nat \<Rightarrow> nat \<Rightarrow> nat \<times> nat \<times> nat"
where
  "find_longest_match a b alo ahi blo bhi =
     extend_forward a b ahi bhi
       (extend_back a b alo blo
          (match_rows a b blo bhi [alo..<ahi] (Map.empty, alo, blo, 0)))"

text \<open>
  The match that \<^verbatim>\<open>find_longest_match\<close> returns lies in the ranges of \<open>a\<close> and
  \<open>b\<close> it was given. Inside the loop \<open>k\<close> is at most \<open>i + 1 - alo\<close> and at most
  \<open>j + 1 - blo\<close>, so \<open>i + 1 - k\<close> and \<open>j + 1 - k\<close> are Python's
  \<^verbatim>\<open>i-k+1\<close> and \<^verbatim>\<open>j-k+1\<close>; and the loop of \<^verbatim>\<open>get_matching_blocks\<close> terminates,
  since every range it queues is shorter than the one it took.
\<close>

lemma match_row_bound:
  assumes "\<forall>j l. j2len j = Some l \<longrightarrow> l \<le> i - alo" and "alo \<le> i"
    and "\<forall>j l. new j = Some l \<longrightarrow> l \<le> Suc i - alo"
    and "alo \<le> bi" and "(bs = 0 \<and> bi = alo) \<or> bi + bs \<le> Suc i"
    and "match_row i blo bhi j2len js (new, bi, bj, bs) = (new', bi', bj', bs')"
  shows "(\<forall>j l. new' j = Some l \<longrightarrow> l \<le> Suc i - alo) \<and> alo \<le> bi'
       \<and> ((bs' = 0 \<and> bi' = alo) \<or> bi' + bs' \<le> Suc i)"
  using assms(3-)
proof (induction js arbitrary: new bi bj bs)
  case Nil
  then show ?case by simp
next
  case (Cons j js)
  show ?case
  proof (cases "j < blo")
    case True
    with Cons.prems(4) have "match_row i blo bhi j2len js (new, bi, bj, bs) = (new', bi', bj', bs')"
      by simp
    from Cons.IH [OF Cons.prems(1-3) this] show ?thesis .
  next
    case low: False
    show ?thesis
    proof (cases "bhi \<le> j")
      case True
      with low Cons.prems show ?thesis by simp
    next
      case False
      define k where "k = (case (if j = 0 then None else j2len (j - 1)) of None \<Rightarrow> 0 | Some l \<Rightarrow> l) + 1"
      have kb: "k \<le> Suc i - alo"
        using assms(1,2) by (auto simp: k_def Suc_diff_le split: option.splits)
      have kpos: "0 < k" by (simp add: k_def)
      have new1: "\<forall>j' l. (new(j \<mapsto> k)) j' = Some l \<longrightarrow> l \<le> Suc i - alo"
        using Cons.prems(1) kb by auto
      show ?thesis
      proof (cases "bs < k")
        case True
        with low False Cons.prems(4)
        have run: "match_row i blo bhi j2len js (new(j \<mapsto> k), i + 1 - k, j + 1 - k, k)
            = (new', bi', bj', bs')"
          by (simp add: k_def Let_def)
        have "alo \<le> i + 1 - k" using kb assms(2) by arith
        moreover have "(k = 0 \<and> i + 1 - k = alo) \<or> i + 1 - k + k \<le> Suc i"
          using kb by arith
        ultimately show ?thesis using Cons.IH [OF new1 _ _ run] by blast
      next
        case nb: False
        with low False Cons.prems(4)
        have run: "match_row i blo bhi j2len js (new(j \<mapsto> k), bi, bj, bs) = (new', bi', bj', bs')"
          by (simp add: k_def Let_def)
        from Cons.IH [OF new1 Cons.prems(2,3) run] show ?thesis .
      qed
    qed
  qed
qed

lemma match_rows_bound:
  assumes "alo \<le> i" and "i \<le> ahi"
    and "\<forall>j l. j2len j = Some l \<longrightarrow> l \<le> i - alo"
    and "alo \<le> bi" and "(bs = 0 \<and> bi = alo) \<or> bi + bs \<le> i"
    and "match_rows a b blo bhi [i..<ahi] (j2len, bi, bj, bs) = (x, y, z)"
  shows "alo \<le> x \<and> ((z = 0 \<and> x = alo) \<or> x + z \<le> ahi)"
  using assms
proof (induction "ahi - i" arbitrary: i j2len bi bj bs)
  case 0
  then have "[i..<ahi] = []" by simp
  with 0 show ?case by auto
next
  case (Suc n)
  then have lt: "i < ahi" by simp
  then have rows: "[i..<ahi] = i # [Suc i..<ahi]" by (simp add: upt_rec)
  obtain new' bi' bj' bs' where
    row: "match_row i blo bhi j2len (b2j b (a ! i)) (Map.empty, bi, bj, bs) = (new', bi', bj', bs')"
    by (cases "match_row i blo bhi j2len (b2j b (a ! i)) (Map.empty, bi, bj, bs)") auto
  have start: "(bs = 0 \<and> bi = alo) \<or> bi + bs \<le> Suc i" using Suc.prems(5) by auto
  have inv: "(\<forall>j l. new' j = Some l \<longrightarrow> l \<le> Suc i - alo) \<and> alo \<le> bi'
       \<and> ((bs' = 0 \<and> bi' = alo) \<or> bi' + bs' \<le> Suc i)"
    by (rule match_row_bound [OF Suc.prems(3) Suc.prems(1) _ Suc.prems(4) start row]) simp
  have rest: "match_rows a b blo bhi [Suc i..<ahi] (new', bi', bj', bs') = (x, y, z)"
    using Suc.prems(6) rows row by simp
  have n: "n = ahi - Suc i" using Suc.hyps(2) by simp
  have "\<forall>j l. new' j = Some l \<longrightarrow> l \<le> Suc i - alo" using inv by blast
  moreover have "alo \<le> bi'" using inv by blast
  moreover have "(bs' = 0 \<and> bi' = alo) \<or> bi' + bs' \<le> Suc i" using inv by blast
  ultimately show ?case
    using Suc.hyps(1) [OF n _ _ _ _ _ rest] Suc.prems(1) lt by simp
qed

lemma extend_back_bound:
  assumes "alo \<le> bi" and "(bs = 0 \<and> bi = alo) \<or> bi + bs \<le> ahi"
    and "extend_back a b alo blo (bi, bj, bs) = (x, y, z)"
  shows "alo \<le> x \<and> ((z = 0 \<and> x = alo) \<or> x + z \<le> ahi)"
  using assms
proof (induction a b alo blo "(bi, bj, bs)" arbitrary: bi bj bs rule: extend_back.induct)
  case (1 a b alo blo besti bestj bestsize)
  show ?case
  proof (cases "alo < besti \<and> blo < bestj \<and> a ! (besti - 1) = b ! (bestj - 1)")
    case True
    then have step: "extend_back a b alo blo (besti - 1, bestj - 1, bestsize + 1) = (x, y, z)"
      using "1.prems"(3) by (simp add: extend_back.simps [of a b alo blo besti])
    have "alo \<le> besti - 1" using True by arith
    moreover have "(bestsize + 1 = 0 \<and> besti - 1 = alo) \<or> besti - 1 + (bestsize + 1) \<le> ahi"
      using True "1.prems"(2) by auto
    ultimately show ?thesis using "1.hyps" [OF True _ _ step] by blast
  next
    case False
    then have "(x, y, z) = (besti, bestj, bestsize)"
      using "1.prems"(3) by (auto simp: extend_back.simps [of a b alo blo besti] split: if_splits)
    then show ?thesis using "1.prems" by simp
  qed
qed

lemma extend_forward_bound:
  assumes "alo \<le> bi" and "(bs = 0 \<and> bi = alo) \<or> bi + bs \<le> ahi"
    and "extend_forward a b ahi bhi (bi, bj, bs) = (x, y, z)"
  shows "alo \<le> x \<and> ((z = 0 \<and> x = alo) \<or> x + z \<le> ahi)"
  using assms
proof (induction a b ahi bhi "(bi, bj, bs)" arbitrary: bi bj bs rule: extend_forward.induct)
  case (1 a b ahi bhi besti bestj bestsize)
  show ?case
  proof (cases "besti + bestsize < ahi \<and> bestj + bestsize < bhi
         \<and> a ! (besti + bestsize) = b ! (bestj + bestsize)")
    case True
    then have step: "extend_forward a b ahi bhi (besti, bestj, bestsize + 1) = (x, y, z)"
      using "1.prems"(3) by (simp add: extend_forward.simps [of a b ahi bhi besti])
    have "(bestsize + 1 = 0 \<and> besti = alo) \<or> besti + (bestsize + 1) \<le> ahi"
      using True by auto
    then show ?thesis using "1.hyps" [OF True "1.prems"(1) _ step] by blast
  next
    case False
    then have "(x, y, z) = (besti, bestj, bestsize)"
      using "1.prems"(3) by (auto simp: extend_forward.simps [of a b ahi bhi besti] split: if_splits)
    then show ?thesis using "1.prems" by simp
  qed
qed

lemma find_longest_match_bound:
  assumes "find_longest_match a b alo ahi blo bhi = (i, j, k)"
  shows "alo \<le> i \<and> ((k = 0 \<and> i = alo) \<or> i + k \<le> ahi)"
proof -
  obtain x y z where main: "match_rows a b blo bhi [alo..<ahi] (Map.empty, alo, blo, 0) = (x, y, z)"
    by (cases "match_rows a b blo bhi [alo..<ahi] (Map.empty, alo, blo, 0)") auto
  have m: "alo \<le> x \<and> ((z = 0 \<and> x = alo) \<or> x + z \<le> ahi)"
  proof (cases "alo \<le> ahi")
    case True
    show ?thesis
      by (rule match_rows_bound [OF _ True _ _ _ main]) simp_all
  next
    case False
    then have "[alo..<ahi] = []" by simp
    with main show ?thesis by auto
  qed
  obtain x' y' z' where bk: "extend_back a b alo blo (x, y, z) = (x', y', z')"
    by (cases "extend_back a b alo blo (x, y, z)") auto
  have b: "alo \<le> x' \<and> ((z' = 0 \<and> x' = alo) \<or> x' + z' \<le> ahi)"
    using extend_back_bound [OF _ _ bk] m by blast
  have "extend_forward a b ahi bhi (x', y', z') = (i, j, k)"
    using assms main bk by (simp add: find_longest_match_def)
  from extend_forward_bound [OF _ _ this] b show ?thesis by blast
qed

lemma match_row_bound_b:
  assumes "\<forall>j l. j2len j = Some l \<longrightarrow> blo \<le> j \<and> l \<le> Suc j - blo"
    and "\<forall>j l. new j = Some l \<longrightarrow> blo \<le> j \<and> l \<le> Suc j - blo"
    and "blo \<le> bj" and "(bs = 0 \<and> bj = blo) \<or> bj + bs \<le> bhi"
    and "match_row i blo bhi j2len js (new, bi, bj, bs) = (new', bi', bj', bs')"
  shows "(\<forall>j l. new' j = Some l \<longrightarrow> blo \<le> j \<and> l \<le> Suc j - blo) \<and> blo \<le> bj'
       \<and> ((bs' = 0 \<and> bj' = blo) \<or> bj' + bs' \<le> bhi)"
  using assms(2-)
proof (induction js arbitrary: new bi bj bs)
  case Nil
  then show ?case by simp
next
  case (Cons j js)
  show ?case
  proof (cases "j < blo")
    case True
    with Cons.prems(4) have "match_row i blo bhi j2len js (new, bi, bj, bs) = (new', bi', bj', bs')"
      by simp
    from Cons.IH [OF Cons.prems(1-3) this] show ?thesis .
  next
    case low: False
    show ?thesis
    proof (cases "bhi \<le> j")
      case True
      with low Cons.prems show ?thesis by simp
    next
      case False
      define k where "k = (case (if j = 0 then None else j2len (j - 1)) of None \<Rightarrow> 0 | Some l \<Rightarrow> l) + 1"
      have kb: "k \<le> Suc j - blo"
      proof (cases "if j = 0 then None else j2len (j - 1)")
        case None
        then show ?thesis using low by (simp add: k_def)
      next
        case (Some l)
        then have "j2len (j - 1) = Some l" and "0 < j" by (auto split: if_splits)
        with assms(1) have "blo \<le> j - 1" and "l \<le> Suc (j - 1) - blo" by blast+
        then show ?thesis using Some \<open>0 < j\<close> by (simp add: k_def)
      qed
      have new1: "\<forall>j' l. (new(j \<mapsto> k)) j' = Some l \<longrightarrow> blo \<le> j' \<and> l \<le> Suc j' - blo"
        using Cons.prems(1) kb low by auto
      show ?thesis
      proof (cases "bs < k")
        case True
        with low False Cons.prems(4)
        have run: "match_row i blo bhi j2len js (new(j \<mapsto> k), i + 1 - k, j + 1 - k, k)
            = (new', bi', bj', bs')"
          by (simp add: k_def Let_def)
        have "blo \<le> j + 1 - k" using kb low by arith
        moreover have "(k = 0 \<and> j + 1 - k = blo) \<or> j + 1 - k + k \<le> bhi"
          using kb False by arith
        ultimately show ?thesis using Cons.IH [OF new1 _ _ run] by blast
      next
        case nb: False
        with low False Cons.prems(4)
        have run: "match_row i blo bhi j2len js (new(j \<mapsto> k), bi, bj, bs) = (new', bi', bj', bs')"
          by (simp add: k_def Let_def)
        from Cons.IH [OF new1 Cons.prems(2,3) run] show ?thesis .
      qed
    qed
  qed
qed

lemma match_rows_bound_b:
  assumes "\<forall>j l. j2len j = Some l \<longrightarrow> blo \<le> j \<and> l \<le> Suc j - blo"
    and "blo \<le> bj" and "(bs = 0 \<and> bj = blo) \<or> bj + bs \<le> bhi"
    and "match_rows a b blo bhi rows (j2len, bi, bj, bs) = (x, y, z)"
  shows "blo \<le> y \<and> ((z = 0 \<and> y = blo) \<or> y + z \<le> bhi)"
  using assms
proof (induction rows arbitrary: j2len bi bj bs)
  case Nil
  then show ?case by simp
next
  case (Cons i rows)
  obtain new' bi' bj' bs' where
    row: "match_row i blo bhi j2len (b2j b (a ! i)) (Map.empty, bi, bj, bs) = (new', bi', bj', bs')"
    by (cases "match_row i blo bhi j2len (b2j b (a ! i)) (Map.empty, bi, bj, bs)") auto
  have inv: "(\<forall>j l. new' j = Some l \<longrightarrow> blo \<le> j \<and> l \<le> Suc j - blo) \<and> blo \<le> bj'
       \<and> ((bs' = 0 \<and> bj' = blo) \<or> bj' + bs' \<le> bhi)"
    by (rule match_row_bound_b [OF Cons.prems(1) _ Cons.prems(2) Cons.prems(3) row]) simp
  have rest: "match_rows a b blo bhi rows (new', bi', bj', bs') = (x, y, z)"
    using Cons.prems(4) row by simp
  from inv have a: "\<forall>j l. new' j = Some l \<longrightarrow> blo \<le> j \<and> l \<le> Suc j - blo"
    and b: "blo \<le> bj'" and c: "(bs' = 0 \<and> bj' = blo) \<or> bj' + bs' \<le> bhi" by blast+
  show ?case by (rule Cons.IH [OF a b c rest])
qed

lemma extend_back_bound_b:
  assumes "blo \<le> bj" and "(bs = 0 \<and> bj = blo) \<or> bj + bs \<le> bhi"
    and "extend_back a b alo blo (bi, bj, bs) = (x, y, z)"
  shows "blo \<le> y \<and> ((z = 0 \<and> y = blo) \<or> y + z \<le> bhi)"
  using assms
proof (induction a b alo blo "(bi, bj, bs)" arbitrary: bi bj bs rule: extend_back.induct)
  case (1 a b alo blo besti bestj bestsize)
  show ?case
  proof (cases "alo < besti \<and> blo < bestj \<and> a ! (besti - 1) = b ! (bestj - 1)")
    case True
    then have step: "extend_back a b alo blo (besti - 1, bestj - 1, bestsize + 1) = (x, y, z)"
      using "1.prems"(3) by (simp add: extend_back.simps [of a b alo blo besti])
    have "blo \<le> bestj - 1" using True by arith
    moreover have "(bestsize + 1 = 0 \<and> bestj - 1 = blo) \<or> bestj - 1 + (bestsize + 1) \<le> bhi"
      using True "1.prems"(2) by auto
    ultimately show ?thesis using "1.hyps" [OF True _ _ step] by blast
  next
    case False
    then have "(x, y, z) = (besti, bestj, bestsize)"
      using "1.prems"(3) by (auto simp: extend_back.simps [of a b alo blo besti] split: if_splits)
    then show ?thesis using "1.prems" by simp
  qed
qed

lemma extend_forward_bound_b:
  assumes "blo \<le> bj" and "(bs = 0 \<and> bj = blo) \<or> bj + bs \<le> bhi"
    and "extend_forward a b ahi bhi (bi, bj, bs) = (x, y, z)"
  shows "blo \<le> y \<and> ((z = 0 \<and> y = blo) \<or> y + z \<le> bhi)"
  using assms
proof (induction a b ahi bhi "(bi, bj, bs)" arbitrary: bi bj bs rule: extend_forward.induct)
  case (1 a b ahi bhi besti bestj bestsize)
  show ?case
  proof (cases "besti + bestsize < ahi \<and> bestj + bestsize < bhi
         \<and> a ! (besti + bestsize) = b ! (bestj + bestsize)")
    case True
    then have step: "extend_forward a b ahi bhi (besti, bestj, bestsize + 1) = (x, y, z)"
      using "1.prems"(3) by (simp add: extend_forward.simps [of a b ahi bhi besti])
    have "(bestsize + 1 = 0 \<and> bestj = blo) \<or> bestj + (bestsize + 1) \<le> bhi"
      using True by auto
    then show ?thesis using "1.hyps" [OF True "1.prems"(1) _ step] by blast
  next
    case False
    then have "(x, y, z) = (besti, bestj, bestsize)"
      using "1.prems"(3) by (auto simp: extend_forward.simps [of a b ahi bhi besti] split: if_splits)
    then show ?thesis using "1.prems" by simp
  qed
qed

lemma find_longest_match_bound_b:
  assumes "find_longest_match a b alo ahi blo bhi = (i, j, k)"
  shows "blo \<le> j \<and> ((k = 0 \<and> j = blo) \<or> j + k \<le> bhi)"
proof -
  obtain x y z where main: "match_rows a b blo bhi [alo..<ahi] (Map.empty, alo, blo, 0) = (x, y, z)"
    by (cases "match_rows a b blo bhi [alo..<ahi] (Map.empty, alo, blo, 0)") auto
  have m: "blo \<le> y \<and> ((z = 0 \<and> y = blo) \<or> y + z \<le> bhi)"
    by (rule match_rows_bound_b [OF _ _ _ main]) simp_all
  obtain x' y' z' where bk: "extend_back a b alo blo (x, y, z) = (x', y', z')"
    by (cases "extend_back a b alo blo (x, y, z)") auto
  have b: "blo \<le> y' \<and> ((z' = 0 \<and> y' = blo) \<or> y' + z' \<le> bhi)"
    using extend_back_bound_b [OF _ _ bk] m by blast
  have "extend_forward a b ahi bhi (x', y', z') = (i, j, k)"
    using assms main bk by (simp add: find_longest_match_def)
  from extend_forward_bound_b [OF _ _ this] b show ?thesis by blast
qed

text \<open>
  \<^verbatim>\<open>get_matching_blocks\<close>: the loop over the queue of ranges still to match
  (\<^verbatim>\<open>queue.pop()\<close> takes the last one), the sort, and the pass that merges adjacent
  blocks.
\<close>

function matching_loop ::
  "'a list \<Rightarrow> 'a list \<Rightarrow> (nat \<times> nat \<times> nat \<times> nat) list \<Rightarrow> (nat \<times> nat \<times> nat) list
     \<Rightarrow> (nat \<times> nat \<times> nat) list"
where
  "matching_loop a b queue matching_blocks =
     (if queue = [] then matching_blocks
      else
        (case last queue of (alo, ahi, blo, bhi) \<Rightarrow>
           (case find_longest_match a b alo ahi blo bhi of (i, j, k) \<Rightarrow>
              if k \<noteq> 0 then
                matching_loop a b
                  (butlast queue
                     @ (if alo < i \<and> blo < j then [(alo, i, blo, j)] else [])
                     @ (if i + k < ahi \<and> j + k < bhi then [(i + k, ahi, j + k, bhi)] else []))
                  (matching_blocks @ [(i, j, k)])
              else matching_loop a b (butlast queue) matching_blocks)))"
  by pat_completeness auto
termination
proof (relation "measure (\<lambda>(a, b, queue, blocks).
          sum_list (map (\<lambda>(alo, ahi, blo, bhi). 2 * (ahi - alo) + 1) queue))", goal_cases)
  case 1
  show ?case by simp
next
  case (2 a b queue blocks alo y ahi ya blo bhi i yc j k)
  then have l: "last queue = (alo, ahi, blo, bhi)" by simp
  with 2 have q: "queue = butlast queue @ [(alo, ahi, blo, bhi)]"
    by (metis append_butlast_last_id)
  from 2 have "find_longest_match a b alo ahi blo bhi = (i, j, k)" by simp
  from find_longest_match_bound [OF this] 2
  have bnd: "alo \<le> i" "i + k \<le> ahi" by auto
  have "sum_list (map (\<lambda>(alo, ahi, blo, bhi). 2 * (ahi - alo) + 1) queue)
      = sum_list (map (\<lambda>(alo, ahi, blo, bhi). 2 * (ahi - alo) + 1) (butlast queue))
        + (2 * (ahi - alo) + 1)"
    by (subst q) simp
  then show ?case using bnd 2 by auto
next
  case (3 a b queue blocks alo y ahi ya blo bhi i yc j k)
  then have l: "last queue = (alo, ahi, blo, bhi)" by simp
  with 3 have q: "queue = butlast queue @ [(alo, ahi, blo, bhi)]"
    by (metis append_butlast_last_id)
  have "sum_list (map (\<lambda>(alo, ahi, blo, bhi). 2 * (ahi - alo) + 1) queue)
      = sum_list (map (\<lambda>(alo, ahi, blo, bhi). 2 * (ahi - alo) + 1) (butlast queue))
        + (2 * (ahi - alo) + 1)"
    by (subst q) simp
  then show ?case by simp
qed

declare matching_loop.simps [simp del]


fun merge_adjacent ::
  "(nat \<times> nat \<times> nat) list \<Rightarrow> nat \<times> nat \<times> nat \<Rightarrow> (nat \<times> nat \<times> nat) list
     \<Rightarrow> (nat \<times> nat \<times> nat) list"
where
  "merge_adjacent [] (i1, j1, k1) non_adjacent =
     (if k1 \<noteq> 0 then non_adjacent @ [(i1, j1, k1)] else non_adjacent)"
| "merge_adjacent ((i2, j2, k2) # blocks) (i1, j1, k1) non_adjacent =
     (if i1 + k1 = i2 \<and> j1 + k1 = j2 then merge_adjacent blocks (i1, j1, k1 + k2) non_adjacent
      else merge_adjacent blocks (i2, j2, k2)
             (if k1 \<noteq> 0 then non_adjacent @ [(i1, j1, k1)] else non_adjacent))"

definition get_matching_blocks :: "'a list \<Rightarrow> 'a list \<Rightarrow> (nat \<times> nat \<times> nat) list" where
  "get_matching_blocks a b =
     merge_adjacent (sort (matching_loop a b [(0, length a, 0, length b)] [])) (0, 0, 0) []
       @ [(length a, length b, 0)]"

datatype tag = Replace | Delete | Insert | Equal

type_synonym opcode = "tag \<times> nat \<times> nat \<times> nat \<times> nat"

text \<open>\<^verbatim>\<open>get_opcodes\<close>: the loop over the matching blocks with \<open>i\<close>, \<open>j\<close> and the answer.\<close>

fun opcodes_loop :: "(nat \<times> nat \<times> nat) list \<Rightarrow> nat \<Rightarrow> nat \<Rightarrow> opcode list \<Rightarrow> opcode list" where
  "opcodes_loop [] i j answer = answer"
| "opcodes_loop ((ai, bj, sz) # blocks) i j answer =
     (let answer1 =
            (if i < ai \<and> j < bj then answer @ [(Replace, i, ai, j, bj)]
             else if i < ai then answer @ [(Delete, i, ai, j, bj)]
             else if j < bj then answer @ [(Insert, i, ai, j, bj)]
             else answer);
          answer2 =
            (if sz \<noteq> 0 then answer1 @ [(Equal, ai, ai + sz, bj, bj + sz)] else answer1)
      in opcodes_loop blocks (ai + sz) (bj + sz) answer2)"

definition get_opcodes :: "'a list \<Rightarrow> 'a list \<Rightarrow> opcode list" where
  "get_opcodes a b = opcodes_loop (get_matching_blocks a b) 0 0 []"

text \<open>
  \<^verbatim>\<open>get_grouped_opcodes(n)\<close>: the two trims of a leading and a trailing \<^verbatim>\<open>equal\<close>,
  then the loop that cuts the codes into groups; the groups yielded so far are the last
  argument. Differences of indices are never negative here, so the truncating
  subtraction of \<open>nat\<close> agrees with Python's.
\<close>

definition trim_first :: "nat \<Rightarrow> opcode list \<Rightarrow> opcode list" where
  "trim_first n codes =
     (case codes of
        (Equal, i1, i2, j1, j2) # rest \<Rightarrow> (Equal, max i1 (i2 - n), i2, max j1 (j2 - n), j2) # rest
      | _ \<Rightarrow> codes)"

definition trim_last :: "nat \<Rightarrow> opcode list \<Rightarrow> opcode list" where
  "trim_last n codes =
     (if codes = [] then codes
      else (case last codes of
              (Equal, i1, i2, j1, j2) \<Rightarrow>
                butlast codes @ [(Equal, i1, min i2 (i1 + n), j1, min j2 (j1 + n))]
            | _ \<Rightarrow> codes))"

fun group_loop :: "nat \<Rightarrow> opcode list \<Rightarrow> opcode list \<Rightarrow> opcode list list \<Rightarrow> opcode list list" where
  "group_loop n [] grp yielded =
     (if grp \<noteq> [] \<and> \<not> (length grp = 1 \<and> fst (hd grp) = Equal)
      then yielded @ [grp] else yielded)"
| "group_loop n ((t, i1, i2, j1, j2) # codes) grp yielded =
     (if t = Equal \<and> n + n < i2 - i1
      then group_loop n codes [(t, max i1 (i2 - n), i2, max j1 (j2 - n), j2)]
             (yielded @ [grp @ [(t, i1, min i2 (i1 + n), j1, min j2 (j1 + n))]])
      else group_loop n codes (grp @ [(t, i1, i2, j1, j2)]) yielded)"

definition get_grouped_opcodes :: "'a list \<Rightarrow> 'a list \<Rightarrow> nat \<Rightarrow> opcode list list" where
  "get_grouped_opcodes a b n =
     (let codes = get_opcodes a b;
          codes1 = (if codes = [] then [(Equal, 0, 1, 0, 1)] else codes)
      in group_loop n (trim_last n (trim_first n codes1)) [] [])"

definition format_range_unified :: "nat \<Rightarrow> nat \<Rightarrow> string" where
  "format_range_unified start stop =
     (let beginning = start + 1; len = stop - start in
      if len = 1 then show_nat beginning
      else show_nat (if len = 0 then beginning - 1 else beginning) @ '','' @ show_nat len)"

definition slice :: "'a list \<Rightarrow> nat \<Rightarrow> nat \<Rightarrow> 'a list" where
  "slice xs i1 i2 = take (i2 - i1) (drop i1 xs)"

fun opcode_lines :: "string list \<Rightarrow> string list \<Rightarrow> opcode \<Rightarrow> string list" where
  "opcode_lines a b (Equal, i1, i2, j1, j2) = map (\<lambda>line. '' '' @ line) (slice a i1 i2)"
| "opcode_lines a b (Replace, i1, i2, j1, j2) =
     map (\<lambda>line. ''-'' @ line) (slice a i1 i2) @ map (\<lambda>line. ''+'' @ line) (slice b j1 j2)"
| "opcode_lines a b (Delete, i1, i2, j1, j2) = map (\<lambda>line. ''-'' @ line) (slice a i1 i2)"
| "opcode_lines a b (Insert, i1, i2, j1, j2) = map (\<lambda>line. ''+'' @ line) (slice b j1 j2)"

definition hunk_lines :: "string list \<Rightarrow> string list \<Rightarrow> opcode list \<Rightarrow> string list" where
  "hunk_lines a b grp =
     (case (hd grp, last grp) of
        ((t1, f1, f2, f3, f4), (t2, l1, l2, l3, l4)) \<Rightarrow>
          (''@@ -'' @ format_range_unified f1 l2 @ '' +'' @ format_range_unified f3 l4 @ '' @@'')
            # concat (map (opcode_lines a b) grp))"

definition unified_diff :: "string list \<Rightarrow> string list \<Rightarrow> string \<Rightarrow> string \<Rightarrow> string list" where
  "unified_diff a b fromfile tofile =
     (case get_grouped_opcodes a b 3 of
        [] \<Rightarrow> []
      | groups \<Rightarrow>
          (''--- '' @ fromfile) # (''+++ '' @ tofile) # concat (map (hunk_lines a b) groups))"



subsection \<open>Drift detection\<close>

text \<open>
  \<^verbatim>\<open>str.splitlines()\<close>: a line ends at a line feed, a carriage return (with the line
  feed that follows it, if any), a vertical tab, a form feed, a file, group or record
  separator or a next-line character; the boundaries are dropped and there is no empty
  last line. Characters are eight-bit here, so the two Unicode separators beyond that
  range do not occur.
\<close>

definition is_linebreak :: "char \<Rightarrow> bool" where
  "is_linebreak c =
     (c \<in> set [CHR 0x0A, CHR 0x0B, CHR 0x0C, CHR 0x0D, CHR 0x1C, CHR 0x1D, CHR 0x1E, CHR 0x85])"

fun split_lines :: "string \<Rightarrow> string \<Rightarrow> string list" where
  "split_lines acc [] = (if acc = [] then [] else [acc])"
| "split_lines acc [c] = (if is_linebreak c then [acc] else [acc @ [c]])"
| "split_lines acc (c # d # cs) =
     (if c = CHR 0x0D \<and> d = CHR 0x0A then acc # split_lines [] cs
      else if is_linebreak c then acc # split_lines [] (d # cs)
      else split_lines (acc @ [c]) (d # cs))"

definition splitlines :: "string \<Rightarrow> string list" where
  "splitlines s = split_lines [] s"

text \<open>
  \<^verbatim>\<open>str(value)\<close>: \<open>repr\<close> gives the text of the values that are neither
  \<^verbatim>\<open>None\<close> nor a string.
\<close>

definition py_str :: "('d py_value \<Rightarrow> string) \<Rightarrow> 'd py_value \<Rightarrow> string" where
  "py_str repr v = (case v of PyNone \<Rightarrow> ''None'' | PyStr s \<Rightarrow> s | _ \<Rightarrow> repr v)"

text \<open>
  \<^verbatim>\<open>ConfigDriftDetectionTool\<close>; \<open>ignore_patterns\<close> holds the patterns as compiled by
  the constructor.
\<close>

record ('d, 'rx) config_drift_detection_tool =
  running_config_fetcher :: "string \<Rightarrow> exn + 'd fetched"
  baseline_loader :: "string \<Rightarrow> exn + 'd fetched"
  ignore_patterns :: "'rx list"

definition resolve :: "'d fetched \<Rightarrow> string \<Rightarrow> 'd tool_output" where
  "resolve v label =
     (case v of
        Wrapped out \<Rightarrow> out
      | Raw PyNone \<Rightarrow> fail (label @ '' not available'') None
      | Raw x \<Rightarrow> ok x)"

definition filter_lines :: "'rx regex_engine \<Rightarrow> 'rx list \<Rightarrow> string list \<Rightarrow> string list" where
  "filter_lines eng pats ls =
     (if pats = [] then ls
      else filter (\<lambda>line. \<not> list_ex (\<lambda>p. search eng p line) pats) ls)"

definition startswith :: "string \<Rightarrow> string list \<Rightarrow> bool" where
  "startswith line ps = list_ex (\<lambda>p. prefix p line) ps"

fun join_lines :: "string list \<Rightarrow> string" where
  "join_lines [] = []"
| "join_lines [l] = l"
| "join_lines (l # ls) = l @ [CHR 0x0A] @ join_lines ls"

definition detect_drift ::
  "'rx regex_engine \<Rightarrow> ('d py_value \<Rightarrow> string) \<Rightarrow> ('d, 'rx) config_drift_detection_tool
     \<Rightarrow> string \<Rightarrow> exn + 'd tool_output"
where
  "detect_drift eng repr tool dev =
     (case running_config_fetcher tool dev of
        Inl e \<Rightarrow> Inl e
      | Inr rv \<Rightarrow>
          (let running = resolve rv ''running_config'' in
           if \<not> success running then Inr running
           else
             (case baseline_loader tool dev of
                Inl e \<Rightarrow> Inl e
              | Inr bv \<Rightarrow>
                  (let baseline = resolve bv ''baseline_config'' in
                   if \<not> success baseline then Inr baseline
                   else
                     (let running_lines =
                            filter_lines eng (ignore_patterns tool)
                              (splitlines (py_str repr (data running)));
                          baseline_lines =
                            filter_lines eng (ignore_patterns tool)
                              (splitlines (py_str repr (data baseline)));
                          diff_lines =
                            unified_diff baseline_lines running_lines ''baseline'' ''running'';
                          drifted =
                            list_ex (\<lambda>line. startswith line [''+'', ''-'']
                                             \<and> \<not> startswith line [''+++'', ''---''])
                                    diff_lines
                      in Inr (ok (DriftOutput
                            \<lparr>drift_device = dev, is_drifted = drifted,
                             diff = (if drifted then Some (join_lines diff_lines) else None)\<rparr>)))))))"

subsection \<open>Concrete worlds, backends and fetchers\<close>

text \<open>
  Backends whose staging raises \<^verbatim>\<open>GitCommandError\<close> or \<^verbatim>\<open>OSError\<close> and one whose
  commit with the message \<^verbatim>\<open>m1\<close> raises \<^verbatim>\<open>GitCommandError\<close>, fetchers that return
  an empty string or \<^verbatim>\<open>None\<close>, and the worlds that the runs below reach from
  \<open>fresh_world\<close>.
\<close>

definition broken_backend :: "sim_world backend" where
  "broken_backend =
     sim_backend\<lparr>index_add := (\<lambda>rels w. (Inl (GitCommandError ''unable to write index''), w))\<rparr>"

definition locked_backend :: "sim_world backend" where
  "locked_backend =
     sim_backend\<lparr>index_add := (\<lambda>rels w. (Inl (OSError ''index.lock exists''), w))\<rparr>"

definition flaky_backend :: "sim_world backend" where
  "flaky_backend =
     sim_backend\<lparr>index_commit :=
       (\<lambda>commit_message w.
          if commit_message = ''m1'' then (Inl (GitCommandError ''commit failed''), w)
          else sim_index_commit commit_message w)\<rparr>"

definition no_json :: "unit py_value \<Rightarrow> exn + string" where
  "no_json v = Inl (OtherError ''TypeError'')"

definition empty_fetcher :: "string \<Rightarrow> exn + unit fetched" where
  "empty_fetcher dev = Inr (Raw (PyStr []))"

definition wrapped_empty_fetcher :: "string \<Rightarrow> exn + unit fetched" where
  "wrapped_empty_fetcher dev = Inr (Wrapped (ok (PyStr [])))"

definition none_fetcher :: "string \<Rightarrow> exn + unit fetched" where
  "none_fetcher dev = Inr (Raw PyNone)"

definition backup_tool :: "(string \<Rightarrow> exn + unit fetched) \<Rightarrow> unit config_backup_tool" where
  "backup_tool fetcher =
     \<lparr>config_fetcher = fetcher, version_control = plain_tool, serializer = None\<rparr>"

definition written_world :: sim_world where
  "written_world =
     fresh_world\<lparr>dirs := [Path True [''srv'', ''repo'', ''configs''], Path True [''srv''],
                          Path True [''srv'', ''repo'']],
                 files := [(Path True [''srv'', ''repo'', ''configs'', ''r1.cfg''], ''hostname R1'')]\<rparr>"

definition committed_world :: sim_world where
  "committed_world =
     written_world\<lparr>staged := [(''configs/r1.cfg'', ''hostname R1'')],
                   head_tree := [(''configs/r1.cfg'', ''hostname R1'')],
                   history := [(''commit-1'', ''m1'')]\<rparr>"

definition empty_snapshot_world :: sim_world where
  "empty_snapshot_world =
     fresh_world\<lparr>dirs := [Path True [''srv'', ''repo'', ''configs''], Path True [''srv''],
                          Path True [''srv'', ''repo'']],
                 files := [(Path True [''srv'', ''repo'', ''configs'', ''r1.cfg''], [])]\<rparr>"

definition relative_tool :: version_control_tool where
  "relative_tool = \<lparr>repo_path = Path False [''repo''], has_repo = True\<rparr>"

text \<open>Fetchers that return a given text, for concrete drift checks.\<close>

definition no_repr :: "unit py_value \<Rightarrow> string" where
  "no_repr v = ''<object>''"

definition text_fetcher :: "string \<Rightarrow> string \<Rightarrow> exn + unit fetched" where
  "text_fetcher content dev = Inr (Raw (PyStr content))"

definition drift_tool ::
  "string \<Rightarrow> string \<Rightarrow> string list \<Rightarrow> (unit, string) config_drift_detection_tool" where
  "drift_tool running baseline pats =
     \<lparr>running_config_fetcher = text_fetcher running, baseline_loader = text_fetcher baseline,
      ignore_patterns = pats\<rparr>"

subsection \<open>Concrete audit runs\<close>

text \<open>
  A policy with one rule of each kind, and a configuration that lacks the required line
  and uses telnet on two lines (scenarios C and D of the specification).
\<close>

definition scenario_rules :: "compliance_rule list" where
  "scenario_rules =
     [\<lparr>rule_id = ''R1'', description = ''HTTP server is disabled'',
       pattern = ''no ip http server'', mode = ''required''\<rparr>,
      \<lparr>rule_id = ''R2'', description = ''Telnet is not used'',
       pattern = ''telnet'', mode = ''forbidden''\<rparr>,
      \<lparr>rule_id = ''R3'', description = ''Banner is present'',
       pattern = ''banner'', mode = ''advisory''\<rparr>]"

definition scenario_config :: string where
  "scenario_config =
     ''hostname R1\<newline>line vty 0 4\<newline> transport input telnet\<newline>line vty 5 15\<newline> transport input telnet''"

definition scenario_tool :: compliance_audit_tool where
  "scenario_tool = \<lparr>policy_rules = [''baseline'' \<mapsto> scenario_rules], rule_loader = None\<rparr>"

definition scenario_report :: compliance_report where
  "scenario_report =
     \<lparr>policy_name = ''baseline'', is_compliant = False,
      violations =
        [\<lparr>violation_rule_id = ''R1'', rule_description = ''HTTP server is disabled'',
          violating_line = None, violation_type = ''missing_required''\<rparr>,
         \<lparr>violation_rule_id = ''R2'', rule_description = ''Telnet is not used'',
          violating_line = Some ''telnet'', violation_type = ''found_forbidden''\<rparr>,
         \<lparr>violation_rule_id = ''R2'', rule_description = ''Telnet is not used'',
          violating_line = Some ''telnet'', violation_type = ''found_forbidden''\<rparr>]\<rparr>"

definition advisory_tool :: compliance_audit_tool where
  "advisory_tool = \<lparr>policy_rules = [''advisory'' \<mapsto> [scenario_rules ! 2]], rule_loader = None\<rparr>"

definition banner_config :: string where
  "banner_config = ''banner motd x\<newline>banner login y''"

text \<open>
  An engine that refuses a pattern starting with a star, as \<^verbatim>\<open>re.compile\<close> does
  (\<^verbatim>\<open>nothing to repeat\<close>), and a policy whose only rule has such a pattern.
\<close>

definition strict_engine :: "string regex_engine" where
  "strict_engine =
     literal_engine\<lparr>re_compile :=
       (\<lambda>p multiline.
          if p \<noteq> [] \<and> hd p = CHR ''*'' then Inl (ReError ''nothing to repeat at position 0'')
          else Inr p)\<rparr>"

definition starred_tool :: compliance_audit_tool where
  "starred_tool =
     \<lparr>policy_rules =
        [''advisory'' \<mapsto> [\<lparr>rule_id = ''R4'', description = ''Optional banner'',
                               pattern = ''*a'', mode = ''advisory''\<rparr>]],
      rule_loader = None\<rparr>"

section \<open>Properties of the compliance audit\<close>

lemma append_matches_eq: "append_matches r ms vs = vs @ map (found_forbidden r) ms"
  by (induction ms arbitrary: vs) simp_all

lemma audit_rules_shift:
  "audit_rules eng cfg rs (vs @ us) =
     (case audit_rules eng cfg rs us of Inl e \<Rightarrow> Inl e | Inr ws \<Rightarrow> Inr (vs @ ws))"
proof (induction rs arbitrary: us)
  case Nil
  show ?case by simp
next
  case (Cons r rs)
  show ?case
  proof (cases "re_compile eng (pattern r) True")
    case (Inl e)
    then show ?thesis by simp
  next
    case (Inr rx)
    then show ?thesis
      using Cons.IH [of "us @ [missing_required r]"] Cons.IH [of us]
        Cons.IH [of "us @ map (found_forbidden r) (finditer eng rx cfg)"]
      by (simp add: append_matches_eq Let_def)
  qed
qed

lemma audit_rules_append:
  "audit_rules eng cfg (xs @ ys) vs =
     (case audit_rules eng cfg xs vs of Inl e \<Rightarrow> Inl e | Inr ws \<Rightarrow> audit_rules eng cfg ys ws)"
  by (induction xs arbitrary: vs) (simp_all add: Let_def split: sum.splits)

lemma audit_rules_split:
  assumes "audit_rules eng cfg (pre @ r # post) [] = Inr out"
  shows "\<exists>vp vr vq. audit_rules eng cfg pre [] = Inr vp \<and> audit_rules eng cfg [r] [] = Inr vr
           \<and> audit_rules eng cfg post [] = Inr vq \<and> out = vp @ vr @ vq"
proof -
  obtain vp where vp: "audit_rules eng cfg pre [] = Inr vp"
    and rest: "audit_rules eng cfg ([r] @ post) vp = Inr out"
    using assms by (auto simp: audit_rules_append [of eng cfg pre] split: sum.splits)
  obtain w1 where w1: "audit_rules eng cfg [r] vp = Inr w1"
    and rest2: "audit_rules eng cfg post w1 = Inr out"
    using rest by (auto simp only: audit_rules_append [of eng cfg "[r]"] split: sum.splits)
  obtain vr where vr: "audit_rules eng cfg [r] [] = Inr vr" and w1eq: "w1 = vp @ vr"
    using w1 audit_rules_shift [of eng cfg "[r]" vp "[]"]
    by (cases "audit_rules eng cfg [r] []") auto
  obtain vq where vq: "audit_rules eng cfg post [] = Inr vq" and outeq: "out = w1 @ vq"
    using rest2 audit_rules_shift [of eng cfg post w1 "[]"]
    by (cases "audit_rules eng cfg post []") auto
  show ?thesis using vp vr vq w1eq outeq by simp
qed

lemma audit_rules_ids:
  "audit_rules eng cfg rs [] = Inr out \<Longrightarrow> v \<in> set out \<Longrightarrow> violation_rule_id v \<in> rule_id ` set rs"
proof (induction rs arbitrary: out)
  case Nil
  then show ?case by simp
next
  case (Cons r rs)
  from Cons.prems(1) have "audit_rules eng cfg ([] @ r # rs) [] = Inr out" by simp
  then obtain vp vr vq where
    vr: "audit_rules eng cfg [r] [] = Inr vr" and vq: "audit_rules eng cfg rs [] = Inr vq"
    and out: "out = vp @ vr @ vq" and vp: "audit_rules eng cfg [] [] = Inr vp"
    using audit_rules_split [of eng cfg "[]" r rs out] by blast
  have "vp = []" using vp by simp
  have "\<And>w. w \<in> set vr \<Longrightarrow> violation_rule_id w = rule_id r"
    using vr by (auto simp: Let_def append_matches_eq missing_required_def found_forbidden_def
        split: sum.splits if_splits)
  then show ?case using Cons.IH [OF vq] Cons.prems(2) out \<open>vp = []\<close> by auto
qed

lemma scenario_audit:
  "audit_config literal_engine scenario_tool scenario_config ''baseline'' None
     = Inr (ok (Report scenario_report))"
  by (simp add: audit_config_def resolve_rules_def scenario_tool_def scenario_rules_def
      scenario_config_def literal_engine_def literal_finditer_def missing_required_def
      found_forbidden_def scenario_report_def)

lemma scenario_resolve:
  "resolve_rules scenario_tool ''baseline'' None = Inr scenario_rules"
  by (simp add: resolve_rules_def scenario_tool_def scenario_rules_def)

lemma audit_config_report:
  assumes "audit_config eng tool cfg pname extra = Inr out" and "data out = Report rep"
  shows "\<exists>rules. resolve_rules tool pname extra = Inr rules
           \<and> rules \<noteq> []
           \<and> audit_rules eng cfg rules [] = Inr (violations rep)
           \<and> rep = \<lparr>policy_name = pname, is_compliant = (violations rep = []),
                     violations = violations rep\<rparr>"
  using assms
  by (auto simp: audit_config_def ok_def fail_def split: if_splits sum.splits)

text \<open>
  Claim C2. Every report that \<^verbatim>\<open>audit_config\<close> returns has \<open>is_compliant\<close> true
  exactly when its list of violations is empty, for every engine, tool, text and rules.
\<close>
theorem compliant_iff_no_violations:
  assumes "audit_config eng tool cfg pname extra = Inr out" and "data out = Report rep"
  shows "is_compliant rep = (violations rep = [])"
proof -
  from audit_config_report [OF assms]
  have "rep = \<lparr>policy_name = pname, is_compliant = (violations rep = []),
                violations = violations rep\<rparr>" by blast
  then have "is_compliant rep = is_compliant \<lparr>policy_name = pname, is_compliant = (violations rep = []),
                violations = violations rep\<rparr>" by simp
  then show ?thesis by simp
qed

theorem compliant_iff_no_violations_witness:
  "audit_config literal_engine scenario_tool scenario_config ''baseline'' None
     = Inr (ok (Report scenario_report))
   \<and> data (ok (Report scenario_report) :: unit tool_output) = Report scenario_report
   \<and> is_compliant scenario_report = (violations scenario_report = [])"
proof -
  have d: "data (ok (Report scenario_report) :: unit tool_output) = Report scenario_report"
    by (simp add: ok_def)
  show ?thesis
    using scenario_audit d compliant_iff_no_violations [OF scenario_audit d] by simp
qed

lemma filter_other_ids:
  assumes "audit_rules eng cfg rs [] = Inr vs" and "\<forall>q\<in>set rs. rule_id q \<noteq> i"
  shows "filter (\<lambda>v. violation_rule_id v = i) vs = []"
proof -
  have "violation_rule_id v \<noteq> i" if "v \<in> set vs" for v
  proof -
    from audit_rules_ids [OF assms(1) that]
    obtain q where "q \<in> set rs" and "violation_rule_id v = rule_id q" by auto
    then show ?thesis using assms(2) by simp
  qed
  then show ?thesis by (simp add: filter_empty_conv)
qed

text \<open>
  Claim C3. In a returned report, a rule of mode \<^verbatim>\<open>forbidden\<close> standing anywhere in
  the resolved rule list contributes, at its place between the violations of the rules
  before it and of the rules after it, one \<^verbatim>\<open>found_forbidden\<close> violation per match of
  its pattern compiled in multi-line mode, in match order, each with the matched text as
  violating line. When no other resolved rule has its identifier, these are exactly the
  report's violations carrying that identifier, so their number is the number of matches.
\<close>
theorem forbidden_rule_violations:
  assumes "audit_config eng tool cfg pname extra = Inr out" and "data out = Report rep"
    and "resolve_rules tool pname extra = (Inr (pre @ r # post))"
    and "mode r = ''forbidden''"
  shows "\<exists>rx vp vq.
           re_compile eng (pattern r) True = Inr rx
         \<and> audit_rules eng cfg pre [] = Inr vp
         \<and> audit_rules eng cfg post [] = Inr vq
         \<and> violations rep =
             vp @ map (\<lambda>m. \<lparr>violation_rule_id = rule_id r, rule_description = description r,
                             violating_line = Some m, violation_type = ''found_forbidden''\<rparr>)
                      (finditer eng rx cfg) @ vq
         \<and> ((\<forall>q\<in>set (pre @ post). rule_id q \<noteq> rule_id r) \<longrightarrow>
              filter (\<lambda>v. violation_rule_id v = rule_id r) (violations rep) =
                map (\<lambda>m. \<lparr>violation_rule_id = rule_id r, rule_description = description r,
                           violating_line = Some m, violation_type = ''found_forbidden''\<rparr>)
                    (finditer eng rx cfg))"
proof -
  let ?mk = "\<lambda>m. \<lparr>violation_rule_id = rule_id r, rule_description = description r,
                   violating_line = Some m, violation_type = ''found_forbidden''\<rparr>"
  from audit_config_report [OF assms(1,2)] assms(3)
  have run: "audit_rules eng cfg (pre @ r # post) [] = Inr (violations rep)" by auto
  from audit_rules_split [OF run] obtain vp vr vq where
    vp: "audit_rules eng cfg pre [] = Inr vp" and vr: "audit_rules eng cfg [r] [] = Inr vr"
    and vq: "audit_rules eng cfg post [] = Inr vq" and eq: "violations rep = vp @ vr @ vq"
    by blast
  obtain rx where rx: "re_compile eng (pattern r) True = Inr rx"
    using vr by (cases "re_compile eng (pattern r) True") simp_all
  let ?mid = "map ?mk (finditer eng rx cfg)"
  have mk: "found_forbidden r = ?mk"
    by (rule ext) (simp add: found_forbidden_def)
  have vr_eq: "vr = map ?mk (finditer eng rx cfg)"
    using vr rx assms(4)
    by (cases "finditer eng rx cfg = []") (simp_all add: Let_def append_matches_eq mk)
  have own: "filter (\<lambda>v. violation_rule_id v = rule_id r) vr = vr"
    unfolding vr_eq by (simp add: filter_map comp_def)
  have "(\<forall>q\<in>set (pre @ post). rule_id q \<noteq> rule_id r) \<longrightarrow>
          filter (\<lambda>v. violation_rule_id v = rule_id r) (violations rep) = vr"
  proof
    assume other: "\<forall>q\<in>set (pre @ post). rule_id q \<noteq> rule_id r"
    have "filter (\<lambda>v. violation_rule_id v = rule_id r) vp = []"
      using filter_other_ids [OF vp] other by simp
    moreover have "filter (\<lambda>v. violation_rule_id v = rule_id r) vq = []"
      using filter_other_ids [OF vq] other by simp
    ultimately show "filter (\<lambda>v. violation_rule_id v = rule_id r) (violations rep) = vr"
      using own eq by simp
  qed
  then have filt: "(\<forall>q\<in>set (pre @ post). rule_id q \<noteq> rule_id r) \<longrightarrow>
          filter (\<lambda>v. violation_rule_id v = rule_id r) (violations rep) = ?mid"
    unfolding vr_eq .
  have main: "violations rep = vp @ ?mid @ vq"
    using eq unfolding vr_eq .
  show ?thesis using rx vp vq main filt by blast
qed

lemma scenario_split: "scenario_rules = [scenario_rules ! 0] @ scenario_rules ! 1 # [scenario_rules ! 2]"
  by (simp add: scenario_rules_def)

theorem forbidden_rule_violations_witness:
  "audit_config literal_engine scenario_tool scenario_config ''baseline'' None
     = Inr (ok (Report scenario_report) :: unit tool_output)
   \<and> mode (scenario_rules ! 1) = ''forbidden''
   \<and> finditer literal_engine ''telnet'' scenario_config = [''telnet'', ''telnet'']
   \<and> filter (\<lambda>v. violation_rule_id v = ''R2'') (violations scenario_report) =
        [\<lparr>violation_rule_id = ''R2'', rule_description = ''Telnet is not used'',
          violating_line = Some ''telnet'', violation_type = ''found_forbidden''\<rparr>,
         \<lparr>violation_rule_id = ''R2'', rule_description = ''Telnet is not used'',
          violating_line = Some ''telnet'', violation_type = ''found_forbidden''\<rparr>]"
proof -
  have d: "data (ok (Report scenario_report) :: unit tool_output) = Report scenario_report"
    by (simp add: ok_def)
  have r: "resolve_rules scenario_tool ''baseline'' None
      = Inr ([scenario_rules ! 0] @ scenario_rules ! 1 # [scenario_rules ! 2])"
    using scenario_resolve scenario_split by simp
  have m: "mode (scenario_rules ! 1) = ''forbidden''"
    by (simp add: scenario_rules_def)
  have c: "re_compile literal_engine (pattern (scenario_rules ! 1)) True = Inr ''telnet''"
    by (simp add: literal_engine_def scenario_rules_def)
  have f: "finditer literal_engine ''telnet'' scenario_config = [''telnet'', ''telnet'']"
    by (simp add: literal_engine_def literal_finditer_def scenario_config_def)
  have o: "\<forall>q\<in>set ([scenario_rules ! 0] @ [scenario_rules ! 2]).
             rule_id q \<noteq> rule_id (scenario_rules ! 1)"
    by (simp add: scenario_rules_def)
  from forbidden_rule_violations [OF scenario_audit d r m] c o
  have "filter (\<lambda>v. violation_rule_id v = rule_id (scenario_rules ! 1)) (violations scenario_report)
      = map (\<lambda>m. \<lparr>violation_rule_id = rule_id (scenario_rules ! 1),
                    rule_description = description (scenario_rules ! 1),
                    violating_line = Some m, violation_type = ''found_forbidden''\<rparr>)
            (finditer literal_engine ''telnet'' scenario_config)"
    by auto
  then show ?thesis using scenario_audit m f by (simp add: scenario_rules_def)
qed

text \<open>
  Claim C4. In a returned report, a rule of mode \<^verbatim>\<open>required\<close> contributes one
  \<^verbatim>\<open>missing_required\<close> violation without violating line when its pattern has no
  match, and nothing when it has a match. When no other resolved rule has its identifier,
  the report has one or no violation with that identifier accordingly.
\<close>
theorem required_rule_violations:
  assumes "audit_config eng tool cfg pname extra = Inr out" and "data out = Report rep"
    and "resolve_rules tool pname extra = (Inr (pre @ r # post))"
    and "mode r = ''required''"
  shows "\<exists>rx vp vq.
           re_compile eng (pattern r) True = Inr rx
         \<and> audit_rules eng cfg pre [] = Inr vp
         \<and> audit_rules eng cfg post [] = Inr vq
         \<and> violations rep =
             vp @ (if finditer eng rx cfg = []
                   then [\<lparr>violation_rule_id = rule_id r, rule_description = description r,
                          violating_line = None, violation_type = ''missing_required''\<rparr>]
                   else []) @ vq
         \<and> ((\<forall>q\<in>set (pre @ post). rule_id q \<noteq> rule_id r) \<longrightarrow>
              filter (\<lambda>v. violation_rule_id v = rule_id r) (violations rep) =
                (if finditer eng rx cfg = []
                 then [\<lparr>violation_rule_id = rule_id r, rule_description = description r,
                        violating_line = None, violation_type = ''missing_required''\<rparr>]
                 else []))"
proof -
  let ?v = "\<lparr>violation_rule_id = rule_id r, rule_description = description r,
             violating_line = None, violation_type = ''missing_required''\<rparr>"
  from audit_config_report [OF assms(1,2)] assms(3)
  have run: "audit_rules eng cfg (pre @ r # post) [] = Inr (violations rep)" by auto
  from audit_rules_split [OF run] obtain vp vr vq where
    vp: "audit_rules eng cfg pre [] = Inr vp" and vr: "audit_rules eng cfg [r] [] = Inr vr"
    and vq: "audit_rules eng cfg post [] = Inr vq" and eq: "violations rep = vp @ vr @ vq"
    by blast
  obtain rx where rx: "re_compile eng (pattern r) True = Inr rx"
    using vr by (cases "re_compile eng (pattern r) True") simp_all
  let ?mid = "if finditer eng rx cfg = [] then [?v] else []"
  have vr_eq: "vr = (if finditer eng rx cfg = [] then [?v] else [])"
    using vr rx assms(4) by (auto simp: Let_def missing_required_def)
  have own: "filter (\<lambda>v. violation_rule_id v = rule_id r) vr = vr"
    unfolding vr_eq by simp
  have "(\<forall>q\<in>set (pre @ post). rule_id q \<noteq> rule_id r) \<longrightarrow>
          filter (\<lambda>v. violation_rule_id v = rule_id r) (violations rep) = vr"
  proof
    assume other: "\<forall>q\<in>set (pre @ post). rule_id q \<noteq> rule_id r"
    have "filter (\<lambda>v. violation_rule_id v = rule_id r) vp = []"
      using filter_other_ids [OF vp] other by simp
    moreover have "filter (\<lambda>v. violation_rule_id v = rule_id r) vq = []"
      using filter_other_ids [OF vq] other by simp
    ultimately show "filter (\<lambda>v. violation_rule_id v = rule_id r) (violations rep) = vr"
      using own eq by simp
  qed
  then have filt: "(\<forall>q\<in>set (pre @ post). rule_id q \<noteq> rule_id r) \<longrightarrow>
          filter (\<lambda>v. violation_rule_id v = rule_id r) (violations rep) = ?mid"
    unfolding vr_eq .
  have main: "violations rep = vp @ ?mid @ vq"
    using eq unfolding vr_eq .
  show ?thesis using rx vp vq main filt by blast
qed

theorem required_rule_violations_witness:
  "audit_config literal_engine scenario_tool scenario_config ''baseline'' None
     = Inr (ok (Report scenario_report) :: unit tool_output)
   \<and> mode (scenario_rules ! 0) = ''required''
   \<and> finditer literal_engine ''no ip http server'' scenario_config = []
   \<and> filter (\<lambda>v. violation_rule_id v = ''R1'') (violations scenario_report) =
        [\<lparr>violation_rule_id = ''R1'', rule_description = ''HTTP server is disabled'',
          violating_line = None, violation_type = ''missing_required''\<rparr>]"
proof -
  have d: "data (ok (Report scenario_report) :: unit tool_output) = Report scenario_report"
    by (simp add: ok_def)
  have r: "resolve_rules scenario_tool ''baseline'' None
      = Inr ([] @ scenario_rules ! 0 # [scenario_rules ! 1, scenario_rules ! 2])"
    using scenario_resolve by (simp add: scenario_rules_def)
  have m: "mode (scenario_rules ! 0) = ''required''"
    by (simp add: scenario_rules_def)
  have c: "re_compile literal_engine (pattern (scenario_rules ! 0)) True = Inr ''no ip http server''"
    by (simp add: literal_engine_def scenario_rules_def)
  have f: "finditer literal_engine ''no ip http server'' scenario_config = []"
    by (simp add: literal_engine_def literal_finditer_def scenario_config_def)
  have o: "\<forall>q\<in>set ([] @ [scenario_rules ! 1, scenario_rules ! 2]).
             rule_id q \<noteq> rule_id (scenario_rules ! 0)"
    by (simp add: scenario_rules_def)
  from required_rule_violations [OF scenario_audit d r m] c o
  have "filter (\<lambda>v. violation_rule_id v = rule_id (scenario_rules ! 0)) (violations scenario_report)
      = (if finditer literal_engine ''no ip http server'' scenario_config = []
         then [\<lparr>violation_rule_id = rule_id (scenario_rules ! 0),
                 rule_description = description (scenario_rules ! 0),
                 violating_line = None, violation_type = ''missing_required''\<rparr>]
         else [])"
    by auto
  then show ?thesis using scenario_audit m f by (simp add: scenario_rules_def)
qed

text \<open>
  Claim C5. When the policy is unregistered (or registered with no rule), there is no
  loader (or it yields no rule) and no extra rule is given, \<^verbatim>\<open>audit_config\<close> returns
  the failure \<^verbatim>\<open>No compliance rules defined\<close> and no report.
\<close>
theorem empty_rule_set_fails:
  assumes "policy_rules tool pname = None \<or> policy_rules tool pname = Some []"
    and "rule_loader tool = None \<or> (\<exists>ld. rule_loader tool = Some ld \<and> ld pname = Inr [])"
    and "extra = None \<or> extra = Some []"
  shows "audit_config eng tool cfg pname extra =
           Inr \<lparr>success = False, data = PyNone,
                error = Some \<lparr>message = ''No compliance rules defined'', code = None,
                              details = Some [(''policy'', pname)]\<rparr>\<rparr>"
proof -
  have "resolve_rules tool pname extra = Inr []"
    using assms by (auto simp: resolve_rules_def Let_def)
  then show ?thesis by (simp add: audit_config_def fail_def)
qed

theorem empty_rule_set_fails_witness:
  "policy_rules scenario_tool ''unregistered'' = None
   \<and> rule_loader scenario_tool = None
   \<and> (audit_config literal_engine scenario_tool scenario_config ''unregistered'' None
        :: exn + unit tool_output) =
       Inr \<lparr>success = False, data = PyNone,
            error = Some \<lparr>message = ''No compliance rules defined'', code = None,
                          details = Some [(''policy'', ''unregistered'')]\<rparr>\<rparr>"
proof -
  have p: "policy_rules scenario_tool ''unregistered'' = None
             \<or> policy_rules scenario_tool ''unregistered'' = Some []"
    by (simp add: scenario_tool_def)
  have l: "rule_loader scenario_tool = None
             \<or> (\<exists>ld. rule_loader scenario_tool = Some ld \<and> ld ''unregistered'' = Inr [])"
    by (simp add: scenario_tool_def)
  have e: "(None :: compliance_rule list option) = None \<or> None = Some ([] :: compliance_rule list)"
    by simp
  show ?thesis
    using empty_rule_set_fails [OF p l e, of literal_engine scenario_config]
    by (simp add: scenario_tool_def)
qed

lemma audit_rules_skip:
  assumes "mode r \<noteq> ''required''" and "mode r \<noteq> ''forbidden''"
    and "re_compile eng (pattern r) True = Inr rx"
  shows "audit_rules eng cfg (r # rs) vs = audit_rules eng cfg rs vs"
  using assms by (simp add: Let_def)

lemma audit_rules_all_skipped:
  assumes "\<forall>q\<in>set rs. mode q \<noteq> ''required'' \<and> mode q \<noteq> ''forbidden''
             \<and> (\<exists>rx. re_compile eng (pattern q) True = Inr rx)"
  shows "audit_rules eng cfg rs vs = Inr vs"
  using assms
proof (induction rs)
  case Nil
  show ?case by simp
next
  case (Cons r rs)
  then obtain rx where "re_compile eng (pattern r) True = Inr rx" by auto
  then have "audit_rules eng cfg (r # rs) vs = audit_rules eng cfg rs vs"
    using Cons.prems by (intro audit_rules_skip) auto
  then show ?case using Cons by simp
qed

text \<open>
  Claim C10, amended. A rule whose mode is neither \<^verbatim>\<open>required\<close> nor
  \<^verbatim>\<open>forbidden\<close> and whose pattern compiles leaves the violations of the loop as they
  are without it, whatever the text; and when all resolved rules are of that kind the
  audit returns a report with \<open>is_compliant\<close> true and no violation.
\<close>
theorem unrecognized_mode_no_violations:
  assumes "resolve_rules tool pname extra = Inr (pre @ r # post)"
    and "mode r \<noteq> ''required''" and "mode r \<noteq> ''forbidden''"
    and "re_compile eng (pattern r) True = Inr rx"
  shows "audit_rules eng cfg (pre @ r # post) [] = audit_rules eng cfg (pre @ post) []
       \<and> ((\<forall>q\<in>set (pre @ post). mode q \<noteq> ''required'' \<and> mode q \<noteq> ''forbidden''
                \<and> (\<exists>qx. re_compile eng (pattern q) True = Inr qx)) \<longrightarrow>
            audit_config eng tool cfg pname extra =
              Inr \<lparr>success = True,
                   data = Report \<lparr>policy_name = pname, is_compliant = True, violations = []\<rparr>,
                   error = None\<rparr>)"
proof
  show "audit_rules eng cfg (pre @ r # post) [] = audit_rules eng cfg (pre @ post) []"
    using audit_rules_skip [OF assms(2,3,4)]
    by (simp add: audit_rules_append split: sum.splits)
next
  show "(\<forall>q\<in>set (pre @ post). mode q \<noteq> ''required'' \<and> mode q \<noteq> ''forbidden''
                \<and> (\<exists>qx. re_compile eng (pattern q) True = Inr qx)) \<longrightarrow>
            audit_config eng tool cfg pname extra =
              Inr \<lparr>success = True,
                   data = Report \<lparr>policy_name = pname, is_compliant = True, violations = []\<rparr>,
                   error = None\<rparr>"
  proof
    assume rest: "\<forall>q\<in>set (pre @ post). mode q \<noteq> ''required'' \<and> mode q \<noteq> ''forbidden''
                \<and> (\<exists>qx. re_compile eng (pattern q) True = Inr qx)"
    have "\<forall>q\<in>set (pre @ r # post). mode q \<noteq> ''required'' \<and> mode q \<noteq> ''forbidden''
                \<and> (\<exists>qx. re_compile eng (pattern q) True = Inr qx)"
      using rest assms(2,3,4) by auto
    then have "audit_rules eng cfg (pre @ r # post) [] = Inr []"
      by (rule audit_rules_all_skipped)
    then show "audit_config eng tool cfg pname extra =
              Inr \<lparr>success = True,
                   data = Report \<lparr>policy_name = pname, is_compliant = True, violations = []\<rparr>,
                   error = None\<rparr>"
      using assms(1) by (simp add: audit_config_def ok_def)
  qed
qed

theorem unrecognized_mode_no_violations_witness:
  "mode (scenario_rules ! 2) = ''advisory''
   \<and> finditer literal_engine ''banner'' banner_config = [''banner'', ''banner'']
   \<and> (audit_config literal_engine advisory_tool banner_config ''advisory'' None
        :: exn + unit tool_output) =
       Inr \<lparr>success = True,
            data = Report \<lparr>policy_name = ''advisory'', is_compliant = True, violations = []\<rparr>,
            error = None\<rparr>"
proof -
  have r: "resolve_rules advisory_tool ''advisory'' None = Inr ([] @ scenario_rules ! 2 # [])"
    by (simp add: resolve_rules_def advisory_tool_def)
  have m1: "mode (scenario_rules ! 2) \<noteq> ''required''"
    and m2: "mode (scenario_rules ! 2) \<noteq> ''forbidden''"
    by (simp_all add: scenario_rules_def)
  have c: "re_compile literal_engine (pattern (scenario_rules ! 2)) True = Inr ''banner''"
    by (simp add: literal_engine_def scenario_rules_def)
  have f: "finditer literal_engine ''banner'' banner_config = [''banner'', ''banner'']"
    by (simp add: literal_engine_def literal_finditer_def banner_config_def)
  have "(audit_config literal_engine advisory_tool banner_config ''advisory'' None
          :: exn + unit tool_output) =
        Inr \<lparr>success = True,
             data = Report \<lparr>policy_name = ''advisory'', is_compliant = True, violations = []\<rparr>,
             error = None\<rparr>"
    by (rule unrecognized_mode_no_violations [OF r m1 m2 c, THEN conjunct2, THEN mp]) simp
  then show ?thesis using f by (simp add: scenario_rules_def)
qed

text \<open>
  Line 243 compiles the pattern of every rule before the mode is looked at, and
  \<^verbatim>\<open>re.error\<close> is not caught: an audit whose only rule has an unrecognized mode and
  a pattern that does not compile raises and returns no report.
\<close>

theorem unrecognized_mode_counterexample:
  "resolve_rules starred_tool ''advisory'' None
     = Inr [\<lparr>rule_id = ''R4'', description = ''Optional banner'', pattern = ''*a'',
             mode = ''advisory''\<rparr>]
   \<and> (audit_config strict_engine starred_tool ''hostname R1'' ''advisory'' None
        :: exn + unit tool_output)
       = Inl (ReError ''nothing to repeat at position 0'')"
  by (simp add: audit_config_def resolve_rules_def starred_tool_def strict_engine_def
      literal_engine_def)

section \<open>Properties of the snapshot store and the backup\<close>

text \<open>The in-memory filesystem: a directory that was made is there, and making it again changes nothing.\<close>

lemma is_dir_cong: "dirs w1 = dirs w2 \<Longrightarrow> is_dir w1 p = is_dir w2 p"
  by (simp add: is_dir_def)

lemma walk_mono:
  "set (dirs w) \<subseteq> set (dirs w') \<Longrightarrow> walk w cur ns = Inr d \<Longrightarrow> walk w' cur ns = Inr d"
proof (induction ns arbitrary: cur)
  case Nil
  then show ?case by simp
next
  case (Cons n ns)
  from Cons.prems(2) have step: "n = ''..'' \<or> is_dir w (child cur n)"
    and rest: "walk w (child cur n) ns = Inr d"
    by (auto split: if_splits)
  from step Cons.prems(1) have "n = ''..'' \<or> is_dir w' (child cur n)"
    by (auto simp: is_dir_def)
  then show ?case using Cons.IH [OF Cons.prems(1) rest] by simp
qed

lemma walk_append:
  "walk w cur (xs @ ys) = (case walk w cur xs of Inl e \<Rightarrow> Inl e | Inr d \<Rightarrow> walk w d ys)"
  by (induction xs arbitrary: cur) simp_all

lemma path_is_dir_cong:
  assumes "dirs w1 = dirs w2"
  shows "path_is_dir w1 p = path_is_dir w2 p"
proof -
  have a: "walk w2 (Path (absolute p) []) (names p) = Inr d"
    if "walk w1 (Path (absolute p) []) (names p) = Inr d" for d
    by (rule walk_mono [OF _ that]) (simp add: assms)
  have b: "walk w1 (Path (absolute p) []) (names p) = Inr d"
    if "walk w2 (Path (absolute p) []) (names p) = Inr d" for d
    by (rule walk_mono [OF _ that]) (simp add: assms)
  show ?thesis
  proof (cases "walk w1 (Path (absolute p) []) (names p)")
    case (Inr d)
    then show ?thesis using a [OF Inr] by (simp add: path_is_dir_def)
  next
    case (Inl e)
    then have "\<And>d. walk w2 (Path (absolute p) []) (names p) \<noteq> Inr d"
      using b by fastforce
    then show ?thesis using Inl
      by (cases "walk w2 (Path (absolute p) []) (names p)") (auto simp: path_is_dir_def)
  qed
qed

lemma os_mkdir_Inr:
  assumes "os_mkdir p w = (Inr u, w')"
  shows "path_is_dir w' p"
proof -
  let ?base = "Path (absolute p) []"
  from assms have ne: "names p \<noteq> []" by (auto simp: os_mkdir_def split: if_splits)
  from assms ne obtain d where d: "walk w ?base (butlast (names p)) = Inr d"
    by (cases "walk w ?base (butlast (names p))") (auto simp: os_mkdir_def)
  from assms ne d have nd: "last (names p) \<noteq> ''..''"
    and w': "w' = w\<lparr>dirs := child d (last (names p)) # dirs w\<rparr>"
    by (auto simp: os_mkdir_def Let_def split: if_splits)
  have "walk w' ?base (butlast (names p)) = Inr d"
    by (rule walk_mono [OF _ d]) (auto simp: w')
  moreover have "is_dir w' (child d (last (names p)))" by (simp add: is_dir_def w')
  ultimately have "walk w' ?base (butlast (names p) @ [last (names p)])
      = Inr (child d (last (names p)))"
    by (simp add: walk_append)
  then show ?thesis using ne by (simp add: path_is_dir_def)
qed

lemma sim_mkdir_Inr:
  assumes "sim_mkdir p w = (Inr u, w')"
  shows "path_is_dir w' p"
proof -
  obtain r1 w1 where o1: "os_mkdir p w = (r1, w1)" by (cases "os_mkdir p w")
  show ?thesis
  proof (cases r1)
    case (Inr u1)
    then have "w' = w1" using assms o1 by (subst (asm) sim_mkdir.simps) simp
    then show ?thesis using os_mkdir_Inr o1 Inr by blast
  next
    case (Inl e)
    show ?thesis
    proof (cases "is_not_found e")
      case False
      then show ?thesis using assms o1 Inl
        by (subst (asm) sim_mkdir.simps) (simp split: if_splits)
    next
      case True
      obtain r2 w2 where o2: "sim_mkdir (Path (absolute p) (butlast (names p))) w1 = (r2, w2)"
        by (cases "sim_mkdir (Path (absolute p) (butlast (names p))) w1")
      obtain r3 w3 where o3: "os_mkdir p w2 = (r3, w3)" by (cases "os_mkdir p w2")
      from assms o1 Inl True have ne: "names p \<noteq> []"
        by (subst (asm) sim_mkdir.simps) (auto split: if_splits)
      from assms o1 Inl True o2 ne have r2: "\<exists>u2. r2 = Inr u2"
        by (subst (asm) sim_mkdir.simps) (cases r2, auto)
      show ?thesis
      proof (cases r3)
        case (Inr u3)
        then have "w' = w3" using assms o1 Inl True o2 o3 ne r2
          by (subst (asm) sim_mkdir.simps) auto
        then show ?thesis using os_mkdir_Inr o3 Inr by blast
      next
        case e3: (Inl e3)
        then show ?thesis using assms o1 Inl True o2 o3 ne r2
          by (subst (asm) sim_mkdir.simps) (auto split: if_splits)
      qed
    qed
  qed
qed

lemma os_mkdir_exists:
  assumes "path_is_dir w p"
  shows "os_mkdir p w = (Inl (OSError ''File exists''), w)"
proof (cases "names p = []")
  case True
  then show ?thesis by (simp add: os_mkdir_def)
next
  case False
  let ?base = "Path (absolute p) []"
  have split: "names p = butlast (names p) @ [last (names p)]" using False by simp
  from assms obtain d' where "walk w ?base (names p) = Inr d'"
    by (cases "walk w ?base (names p)") (auto simp: path_is_dir_def)
  then have "walk w ?base (butlast (names p) @ [last (names p)]) = Inr d'"
    using split by simp
  then obtain d where d: "walk w ?base (butlast (names p)) = Inr d"
    and l: "walk w d [last (names p)] = Inr d'"
    by (cases "walk w ?base (butlast (names p))") (auto simp: walk_append)
  from l have "last (names p) = ''..'' \<or> is_dir w (child d (last (names p)))"
    by (auto split: if_splits)
  then show ?thesis using False d by (auto simp: os_mkdir_def Let_def)
qed

lemma sim_mkdir_again: "path_is_dir w p \<Longrightarrow> sim_mkdir p w = (Inr (), w)"
  by (subst sim_mkdir.simps) (simp add: os_mkdir_exists is_not_found_def)

text \<open>
  Claim C8, amended. When the directory and the file are written, \<^verbatim>\<open>commit_config\<close>
  returns success with a null commit hash if the tool holds no repository. If it holds
  one and the path relative to the working tree is computed, it returns success with a
  null hash when nothing is dirty after staging, with the hash of the new commit when
  the repository is dirty and the commit is made, and with a null hash when staging,
  the dirty check or the commit raises \<^verbatim>\<open>GitCommandError\<close>, which is caught; an
  exception of any other class raised there is not caught and leaves the call. This
  holds for every backend.
\<close>

theorem commit_config_degrades:
  assumes "mkdir_parents env (joinpath (repo_path tool) ''configs'') w = (Inr (), w1)"
    and "write_text env (joinpath (joinpath (repo_path tool) ''configs'') (dev @ ''.cfg''))
           content w1 = (Inr (), w2)"
  shows "(\<not> has_repo tool \<longrightarrow>
            commit_config env tool dev content msg w =
              (Inr (ok (BackupResult \<lparr>device = dev,
                  path = path_str (joinpath (joinpath (repo_path tool) ''configs'') (dev @ ''.cfg'')),
                  commit_hash = None\<rparr>)), w2))
       \<and> (has_repo tool
            \<and> rel_path env w2 (joinpath (joinpath (repo_path tool) ''configs'') (dev @ ''.cfg''))
                = Inr rel \<longrightarrow>
            ((\<exists>wa. index_add env [rel] w2 = (Inr (), wa) \<and> is_dirty env wa = (Inr False, w3)) \<longrightarrow>
               commit_config env tool dev content msg w =
                 (Inr (ok (BackupResult \<lparr>device = dev,
                     path = path_str (joinpath (joinpath (repo_path tool) ''configs'') (dev @ ''.cfg'')),
                     commit_hash = None\<rparr>)), w3))
          \<and> ((\<exists>wa wb. index_add env [rel] w2 = (Inr (), wa) \<and> is_dirty env wa = (Inr True, wb)
                   \<and> index_commit env msg wb = (Inr hexsha, w3)) \<longrightarrow>
               commit_config env tool dev content msg w =
                 (Inr (ok (BackupResult \<lparr>device = dev,
                     path = path_str (joinpath (joinpath (repo_path tool) ''configs'') (dev @ ''.cfg'')),
                     commit_hash = Some hexsha\<rparr>)), w3))
          \<and> (index_add env [rel] w2 = (Inl e, w3)
               \<or> (\<exists>wa. index_add env [rel] w2 = (Inr (), wa) \<and> is_dirty env wa = (Inl e, w3))
               \<or> (\<exists>wa wb. index_add env [rel] w2 = (Inr (), wa) \<and> is_dirty env wa = (Inr True, wb)
                     \<and> index_commit env msg wb = (Inl e, w3)) \<longrightarrow>
               commit_config env tool dev content msg w =
                 (case e of
                    GitCommandError m \<Rightarrow>
                      (Inr (ok (BackupResult \<lparr>device = dev,
                          path = path_str (joinpath (joinpath (repo_path tool) ''configs'')
                                            (dev @ ''.cfg'')),
                          commit_hash = None\<rparr>)), w3)
                  | _ \<Rightarrow> (Inl e, w3))))"
proof (intro conjI impI; (elim conjE)?)
  assume "\<not> has_repo tool"
  then show "commit_config env tool dev content msg w =
      (Inr (ok (BackupResult \<lparr>device = dev,
          path = path_str (joinpath (joinpath (repo_path tool) ''configs'') (dev @ ''.cfg'')),
          commit_hash = None\<rparr>)), w2)"
    using assms by (simp add: commit_config_def Let_def)
next
  assume h: "has_repo tool"
    "rel_path env w2 (joinpath (joinpath (repo_path tool) ''configs'') (dev @ ''.cfg'')) = Inr rel"
    "\<exists>wa. index_add env [rel] w2 = (Inr (), wa) \<and> is_dirty env wa = (Inr False, w3)"
  then have "stage_and_commit env rel msg w2 = (Inr None, w3)"
    by (auto simp: stage_and_commit_def)
  then show "commit_config env tool dev content msg w =
      (Inr (ok (BackupResult \<lparr>device = dev,
          path = path_str (joinpath (joinpath (repo_path tool) ''configs'') (dev @ ''.cfg'')),
          commit_hash = None\<rparr>)), w3)"
    using assms h(1,2) by (simp add: commit_config_def Let_def)
next
  assume h: "has_repo tool"
    "rel_path env w2 (joinpath (joinpath (repo_path tool) ''configs'') (dev @ ''.cfg'')) = Inr rel"
    "\<exists>wa wb. index_add env [rel] w2 = (Inr (), wa) \<and> is_dirty env wa = (Inr True, wb)
        \<and> index_commit env msg wb = (Inr hexsha, w3)"
  then have "stage_and_commit env rel msg w2 = (Inr (Some hexsha), w3)"
    by (auto simp: stage_and_commit_def)
  then show "commit_config env tool dev content msg w =
      (Inr (ok (BackupResult \<lparr>device = dev,
          path = path_str (joinpath (joinpath (repo_path tool) ''configs'') (dev @ ''.cfg'')),
          commit_hash = Some hexsha\<rparr>)), w3)"
    using assms h(1,2) by (simp add: commit_config_def Let_def)
next
  assume h: "has_repo tool"
    "rel_path env w2 (joinpath (joinpath (repo_path tool) ''configs'') (dev @ ''.cfg'')) = Inr rel"
    "index_add env [rel] w2 = (Inl e, w3)
      \<or> (\<exists>wa. index_add env [rel] w2 = (Inr (), wa) \<and> is_dirty env wa = (Inl e, w3))
      \<or> (\<exists>wa wb. index_add env [rel] w2 = (Inr (), wa) \<and> is_dirty env wa = (Inr True, wb)
            \<and> index_commit env msg wb = (Inl e, w3))"
  then have "stage_and_commit env rel msg w2 = (Inl e, w3)"
    by (auto simp: stage_and_commit_def)
  then show "commit_config env tool dev content msg w =
      (case e of
         GitCommandError m \<Rightarrow>
           (Inr (ok (BackupResult \<lparr>device = dev,
               path = path_str (joinpath (joinpath (repo_path tool) ''configs'') (dev @ ''.cfg'')),
               commit_hash = None\<rparr>)), w3)
       | _ \<Rightarrow> (Inl e, w3))"
    using assms h(1,2) by (cases e) (simp_all add: commit_config_def Let_def)
qed

theorem commit_config_degrades_witness:
  "commit_config sim_backend plain_tool ''r1'' ''hostname R1'' ''m1'' fresh_world =
       (Inr (ok (BackupResult \<lparr>device = ''r1'', path = ''/srv/repo/configs/r1.cfg'',
                               commit_hash = None\<rparr>) :: unit tool_output), written_world)
   \<and> index_add broken_backend [''configs/r1.cfg''] written_world
       = (Inl (GitCommandError ''unable to write index''), written_world)
   \<and> commit_config broken_backend repo_tool ''r1'' ''hostname R1'' ''m1'' fresh_world =
       (Inr (ok (BackupResult \<lparr>device = ''r1'', path = ''/srv/repo/configs/r1.cfg'',
                               commit_hash = None\<rparr>) :: unit tool_output), written_world)
   \<and> commit_config sim_backend repo_tool ''r1'' ''hostname R1'' ''m1'' fresh_world =
       (Inr (ok (BackupResult \<lparr>device = ''r1'', path = ''/srv/repo/configs/r1.cfg'',
                               commit_hash = Some ''commit-1''\<rparr>) :: unit tool_output),
        committed_world)"
proof -
  let ?mid = "fresh_world\<lparr>dirs := dirs written_world\<rparr>"
  let ?staged = "written_world\<lparr>staged := [(''configs/r1.cfg'', ''hostname R1'')]\<rparr>"
  have p: "path_str (joinpath (joinpath (repo_path repo_tool) ''configs'') (''r1'' @ ''.cfg''))
      = ''/srv/repo/configs/r1.cfg''"
    "path_str (joinpath (joinpath (repo_path plain_tool) ''configs'') (''r1'' @ ''.cfg''))
      = ''/srv/repo/configs/r1.cfg''"
    by code_simp+
  \<comment> \<open>no repository\<close>
  have mk0: "mkdir_parents sim_backend (joinpath (repo_path plain_tool) ''configs'') fresh_world
      = (Inr (), ?mid)"
    by code_simp
  have wr0: "write_text sim_backend
      (joinpath (joinpath (repo_path plain_tool) ''configs'') (''r1'' @ ''.cfg'')) ''hostname R1''
      ?mid = (Inr (), written_world)"
    by code_simp
  have plain: "\<not> has_repo plain_tool" by (simp add: plain_tool_def)
  have one: "commit_config sim_backend plain_tool ''r1'' ''hostname R1'' ''m1'' fresh_world =
       (Inr (ok (BackupResult \<lparr>device = ''r1'',
           path = path_str (joinpath (joinpath (repo_path plain_tool) ''configs'') (''r1'' @ ''.cfg'')),
           commit_hash = None\<rparr>) :: unit tool_output), written_world)"
    by (rule commit_config_degrades [OF mk0 wr0, THEN conjunct1, THEN mp]) (rule plain)
  \<comment> \<open>staging raises the error that is caught\<close>
  have mk1: "mkdir_parents broken_backend (joinpath (repo_path repo_tool) ''configs'') fresh_world
      = (Inr (), ?mid)"
    by code_simp
  have wr1: "write_text broken_backend
      (joinpath (joinpath (repo_path repo_tool) ''configs'') (''r1'' @ ''.cfg'')) ''hostname R1''
      ?mid = (Inr (), written_world)"
    by code_simp
  have repo: "has_repo repo_tool" by (simp add: repo_tool_def)
  have rel1: "rel_path broken_backend written_world
      (joinpath (joinpath (repo_path repo_tool) ''configs'') (''r1'' @ ''.cfg''))
      = Inr ''configs/r1.cfg''"
    by code_simp
  have add1: "index_add broken_backend [''configs/r1.cfg''] written_world
      = (Inl (GitCommandError ''unable to write index''), written_world)"
    by (simp add: broken_backend_def)
  have "commit_config broken_backend repo_tool ''r1'' ''hostname R1'' ''m1'' fresh_world =
       (case GitCommandError ''unable to write index'' of
          GitCommandError m \<Rightarrow>
            (Inr (ok (BackupResult \<lparr>device = ''r1'',
                path = path_str (joinpath (joinpath (repo_path repo_tool) ''configs'')
                                  (''r1'' @ ''.cfg'')),
                commit_hash = None\<rparr>) :: unit tool_output), written_world)
        | _ \<Rightarrow> (Inl (GitCommandError ''unable to write index''), written_world))"
    by (rule commit_config_degrades [OF mk1 wr1, THEN conjunct2, THEN mp, THEN conjunct2,
          THEN conjunct2, THEN mp])
       (use repo rel1 add1 in blast)+
  then have two: "commit_config broken_backend repo_tool ''r1'' ''hostname R1'' ''m1'' fresh_world =
       (Inr (ok (BackupResult \<lparr>device = ''r1'',
           path = path_str (joinpath (joinpath (repo_path repo_tool) ''configs'') (''r1'' @ ''.cfg'')),
           commit_hash = None\<rparr>) :: unit tool_output), written_world)"
    by simp
  \<comment> \<open>staging and commit run\<close>
  have mk2: "mkdir_parents sim_backend (joinpath (repo_path repo_tool) ''configs'') fresh_world
      = (Inr (), ?mid)"
    by code_simp
  have wr2: "write_text sim_backend
      (joinpath (joinpath (repo_path repo_tool) ''configs'') (''r1'' @ ''.cfg'')) ''hostname R1''
      ?mid = (Inr (), written_world)"
    by code_simp
  have rel2: "rel_path sim_backend written_world
      (joinpath (joinpath (repo_path repo_tool) ''configs'') (''r1'' @ ''.cfg''))
      = Inr ''configs/r1.cfg''"
    by code_simp
  have add2: "index_add sim_backend [''configs/r1.cfg''] written_world = (Inr (), ?staged)"
    by code_simp
  have dirty2: "is_dirty sim_backend ?staged = (Inr True, ?staged)"
    by code_simp
  have commit2: "index_commit sim_backend ''m1'' ?staged = (Inr ''commit-1'', committed_world)"
    by code_simp
  have three: "commit_config sim_backend repo_tool ''r1'' ''hostname R1'' ''m1'' fresh_world =
       (Inr (ok (BackupResult \<lparr>device = ''r1'',
           path = path_str (joinpath (joinpath (repo_path repo_tool) ''configs'') (''r1'' @ ''.cfg'')),
           commit_hash = Some ''commit-1''\<rparr>) :: unit tool_output), committed_world)"
    by (rule commit_config_degrades [OF mk2 wr2, THEN conjunct2, THEN mp, THEN conjunct2,
          THEN conjunct1, THEN mp])
       (use repo rel2 add2 dirty2 commit2 in blast)+
  show ?thesis using one two three add1 p by simp
qed

text \<open>
  A write that succeeds is not enough for success: an \<^verbatim>\<open>OSError\<close> raised by staging,
  as for a held index lock, is not a \<^verbatim>\<open>GitCommandError\<close> and leaves the call, with
  the snapshot written.
\<close>

theorem commit_config_degrades_counterexample:
  "mkdir_parents locked_backend (joinpath (repo_path repo_tool) ''configs'') fresh_world
     = (Inr (), fresh_world\<lparr>dirs := dirs written_world\<rparr>)
   \<and> write_text locked_backend
        (joinpath (joinpath (repo_path repo_tool) ''configs'') (''r1'' @ ''.cfg'')) ''hostname R1''
        (fresh_world\<lparr>dirs := dirs written_world\<rparr>) = (Inr (), written_world)
   \<and> (commit_config locked_backend repo_tool ''r1'' ''hostname R1'' ''m1'' fresh_world
        :: (exn + unit tool_output) \<times> sim_world)
       = (Inl (OSError ''index.lock exists''), written_world)"
  by code_simp

text \<open>
  The path handed to the index is computed before the \<^verbatim>\<open>try\<close> block. With a
  repository and a relative \<open>repo_path\<close>, \<^verbatim>\<open>relative_to\<close> raises against the
  absolute working tree and the call raises \<^verbatim>\<open>ValueError\<close> after the file is written.
\<close>

lemma commit_config_relative_path:
  "(case fst (commit_config sim_backend relative_tool ''r1'' ''hostname R1'' ''m1'' fresh_world
               :: (exn + unit tool_output) \<times> sim_world) of
      Inl (ValueError m) \<Rightarrow> True | _ \<Rightarrow> False)
   \<and> map_of (files (snd (commit_config sim_backend relative_tool ''r1'' ''hostname R1'' ''m1''
                              fresh_world :: (exn + unit tool_output) \<times> sim_world)))
        (Path False [''repo'', ''configs'', ''r1.cfg'']) = Some ''hostname R1''"
  by code_simp

text \<open>
  A device name with a parent component is resolved by the operating system: the
  snapshot lands beside the directory \<^verbatim>\<open>configs\<close>.
\<close>

lemma commit_config_parent_device:
  "commit_config sim_backend plain_tool ''../r1'' ''hostname R1'' ''m1'' fresh_world =
     (Inr (ok (BackupResult \<lparr>device = ''../r1'', path = ''/srv/repo/configs/../r1.cfg'',
                             commit_hash = None\<rparr>) :: unit tool_output),
      fresh_world\<lparr>dirs := dirs written_world,
                  files := [(Path True [''srv'', ''repo'', ''r1.cfg''], ''hostname R1'')]\<rparr>)"
  by code_simp

lemma tree_eq_refl: "tree_eq a a"
  by (simp add: tree_eq_def)

lemma sim_index_add_single:
  "sim_index_add [rel] w =
     (case read_file w (joinpath (worktree w) rel) of
        None \<Rightarrow> (Inl (FileNotFoundError ''No such file or directory''), w)
      | Some content \<Rightarrow> (Inr (), w\<lparr>staged := AList.update rel content (staged w)\<rparr>))"
  by (simp split: option.splits)

lemma walk_dirs:
  "dirs w1 = dirs w2 \<Longrightarrow> walk w1 cur ns = Inr d \<Longrightarrow> walk w2 cur ns = Inr d"
  by (rule walk_mono) simp_all

lemma sim_write_text_again:
  assumes wr: "sim_write_text p content wa = (Inr (), wb)"
    and d: "dirs w1 = dirs wa" and f: "files w1 = files wb"
  shows "sim_write_text p content w1 = (Inr (), w1)"
proof -
  let ?base = "Path (absolute p) []"
  from wr have ne: "names p \<noteq> []" by (auto simp: sim_write_text_def split: if_splits)
  from wr ne obtain dd where dd: "walk wa ?base (butlast (names p)) = Inr dd"
    by (cases "walk wa ?base (butlast (names p))") (auto simp: sim_write_text_def)
  from wr ne dd have nd: "last (names p) \<noteq> ''..''"
    and nodir: "\<not> is_dir wa (child dd (last (names p)))"
    and wb: "wb = wa\<lparr>files := AList.update (child dd (last (names p))) content (files wa)\<rparr>"
    by (auto simp: sim_write_text_def Let_def split: if_splits)
  have w: "walk w1 ?base (butlast (names p)) = Inr dd"
    by (rule walk_dirs [OF _ dd]) (simp add: d)
  have nodir1: "\<not> is_dir w1 (child dd (last (names p)))"
    using nodir is_dir_cong [OF d] by simp
  have "map_of (files w1) (child dd (last (names p))) = Some content"
    by (simp add: f wb update_conv')
  then have "AList.update (child dd (last (names p))) content (files w1) = files w1"
    by (rule update_triv)
  then show ?thesis using ne w nd nodir1 by (simp add: sim_write_text_def Let_def)
qed

lemma read_file_cong:
  assumes "dirs w1 = dirs w2" and "files w1 = files w2"
  shows "read_file w1 p = read_file w2 p"
proof (cases "names p = [] \<or> last (names p) = ''..''")
  case True
  then show ?thesis by (auto simp: read_file_def)
next
  case False
  let ?base = "Path (absolute p) []"
  show ?thesis
  proof (cases "walk w1 ?base (butlast (names p))")
    case (Inr d)
    then have "walk w2 ?base (butlast (names p)) = Inr d"
      using walk_dirs [OF assms(1)] by blast
    then show ?thesis using Inr False assms(2) by (simp add: read_file_def)
  next
    case (Inl e)
    have "\<And>d. walk w2 ?base (butlast (names p)) \<noteq> Inr d"
    proof
      fix d assume "walk w2 ?base (butlast (names p)) = Inr d"
      then have "walk w1 ?base (butlast (names p)) = Inr d"
        using walk_dirs [OF assms(1) [symmetric]] by blast
      with Inl show False by simp
    qed
    then show ?thesis using Inl False
      by (cases "walk w2 ?base (butlast (names p))") (auto simp: read_file_def)
  qed
qed

text \<open>
  Claim C9, amended. On the in-memory repository, whose versioning calls do not fail:
  when the directory and the file of a first \<^verbatim>\<open>commit_config\<close> are written, the file
  lies in the working tree, staging finds it, and the working tree holds no untracked
  file after staging, then the first call succeeds (with a new version exactly when the
  staged tree differs from the last commit), and a second call with the same device and
  content succeeds, changes nothing and returns a null commit hash.
\<close>

theorem commit_twice_no_untracked:
  assumes repo: "has_repo tool"
    and mk: "mkdir_parents sim_backend (joinpath (repo_path tool) ''configs'') w = (Inr (), wa)"
    and wr: "write_text sim_backend
               (joinpath (joinpath (repo_path tool) ''configs'') (dev @ ''.cfg'')) content wa
             = (Inr (), wb)"
    and rel: "rel_path sim_backend wb
                (joinpath (joinpath (repo_path tool) ''configs'') (dev @ ''.cfg'')) = Inr rel"
    and add: "index_add sim_backend [rel] wb = (Inr (), wc)"
    and un: "untracked_files wc = []"
  shows "fst (commit_config sim_backend tool dev content msg1 w) =
           Inr (ok (BackupResult \<lparr>device = dev,
                path = path_str (joinpath (joinpath (repo_path tool) ''configs'') (dev @ ''.cfg'')),
                commit_hash =
                  (if tree_eq (staged wc) (head_tree wc) then None
                   else Some (''commit-'' @ show_nat (Suc (length (history wc)))))\<rparr>)
                :: 'd tool_output)
       \<and> commit_config sim_backend tool dev content msg2
           (snd (commit_config sim_backend tool dev content msg1 w
                  :: (exn + 'd tool_output) \<times> sim_world)) =
           (Inr (ok (BackupResult \<lparr>device = dev,
                path = path_str (joinpath (joinpath (repo_path tool) ''configs'') (dev @ ''.cfg'')),
                commit_hash = None\<rparr>) :: 'd tool_output),
            snd (commit_config sim_backend tool dev content msg1 w
                  :: (exn + 'd tool_output) \<times> sim_world))"
proof -
  let ?cd = "joinpath (repo_path tool) ''configs''"
  let ?fp = "joinpath ?cd (dev @ ''.cfg'')"
  let ?clean = "tree_eq (staged wc) (head_tree wc)"
  let ?hex = "''commit-'' @ show_nat (Suc (length (history wc)))"
  define w1 where "w1 = (if ?clean then wc
      else wc\<lparr>head_tree := staged wc, history := history wc @ [(?hex, msg1)]\<rparr>)"
  have mk': "sim_mkdir ?cd w = (Inr (), wa)" using mk by (simp add: sim_backend_def)
  have wr': "sim_write_text ?fp content wa = (Inr (), wb)" using wr by (simp add: sim_backend_def)
  have add': "sim_index_add [rel] wb = (Inr (), wc)" using add by (simp add: sim_backend_def)
  obtain c where c: "read_file wb (joinpath (worktree wb) rel) = Some c"
    and wc: "wc = wb\<lparr>staged := AList.update rel c (staged wb)\<rparr>"
    using add' by (auto simp: sim_index_add_single split: option.splits)
  have st1: "stage_and_commit sim_backend rel msg1 wb =
      (Inr (if ?clean then None else Some ?hex), w1)"
    using add' un
    by (simp add: stage_and_commit_def sim_backend_def sim_is_dirty_def sim_index_commit_def
        Let_def w1_def)
  have first: "commit_config sim_backend tool dev content msg1 w =
      (Inr (ok (BackupResult \<lparr>device = dev, path = path_str ?fp,
          commit_hash = (if ?clean then None else Some ?hex)\<rparr>) :: 'd tool_output), w1)"
    using mk wr rel repo st1 by (simp add: commit_config_def Let_def)
  \<comment> \<open>the world after the first call\<close>
  have wb_dirs: "dirs wb = dirs wa" and wb_wt: "worktree wb = worktree wa"
    using wr' by (auto simp: sim_write_text_def Let_def split: if_splits sum.splits)
  have dirs1: "dirs w1 = dirs wa" and files1: "files w1 = files wb"
    and wt1: "worktree w1 = worktree wb" and staged1: "staged w1 = AList.update rel c (staged wb)"
    and un1: "untracked_files w1 = untracked_files wc"
    and teq: "tree_eq (staged w1) (head_tree w1)"
    using wb_dirs by (auto simp: w1_def wc untracked_files_def tree_eq_refl)
  have "path_is_dir wa ?cd" using sim_mkdir_Inr [OF mk'] .
  then have "path_is_dir w1 ?cd" using path_is_dir_cong [OF dirs1] by simp
  then have mk2: "mkdir_parents sim_backend ?cd w1 = (Inr (), w1)"
    by (simp add: sim_backend_def sim_mkdir_again)
  have wr2: "write_text sim_backend ?fp content w1 = (Inr (), w1)"
    using sim_write_text_again [OF wr' dirs1 files1] by (simp add: sim_backend_def)
  have rel2: "rel_path sim_backend w1 ?fp = Inr rel"
    using rel wt1 by (simp add: rel_path_def sim_backend_def)
  have "read_file w1 (joinpath (worktree w1) rel) = Some c"
    using c read_file_cong [of w1 wb] dirs1 wb_dirs files1 wt1 by simp
  moreover have "AList.update rel c (staged w1) = staged w1"
    by (rule update_triv) (simp add: staged1 update_conv')
  ultimately have add2: "sim_index_add [rel] w1 = (Inr (), w1)"
    by (simp add: sim_index_add_single)
  have "sim_is_dirty w1 = (Inr False, w1)"
    using teq un1 un by (simp add: sim_is_dirty_def)
  then have st2: "stage_and_commit sim_backend rel msg2 w1 = (Inr None, w1)"
    using add2 by (simp add: stage_and_commit_def sim_backend_def)
  have second: "commit_config sim_backend tool dev content msg2 w1 =
      (Inr (ok (BackupResult \<lparr>device = dev, path = path_str ?fp, commit_hash = None\<rparr>)
            :: 'd tool_output), w1)"
    using mk2 wr2 rel2 repo st2 by (simp add: commit_config_def Let_def)
  show ?thesis using first second by simp
qed

theorem commit_twice_no_untracked_witness:
  "has_repo repo_tool
   \<and> untracked_files (written_world\<lparr>staged := [(''configs/r1.cfg'', ''hostname R1'')]\<rparr>) = []
   \<and> commit_config sim_backend repo_tool ''r1'' ''hostname R1'' ''m1'' fresh_world =
       (Inr (ok (BackupResult \<lparr>device = ''r1'', path = ''/srv/repo/configs/r1.cfg'',
                               commit_hash = Some ''commit-1''\<rparr>) :: unit tool_output),
        committed_world)
   \<and> commit_config sim_backend repo_tool ''r1'' ''hostname R1'' ''m2'' committed_world =
       (Inr (ok (BackupResult \<lparr>device = ''r1'', path = ''/srv/repo/configs/r1.cfg'',
                               commit_hash = None\<rparr>) :: unit tool_output),
        committed_world)"
proof -
  let ?mid = "fresh_world\<lparr>dirs := dirs written_world\<rparr>"
  let ?staged = "written_world\<lparr>staged := [(''configs/r1.cfg'', ''hostname R1'')]\<rparr>"
  have repo: "has_repo repo_tool" by (simp add: repo_tool_def)
  have mk: "mkdir_parents sim_backend (joinpath (repo_path repo_tool) ''configs'') fresh_world
      = (Inr (), ?mid)"
    by code_simp
  have wr: "write_text sim_backend
      (joinpath (joinpath (repo_path repo_tool) ''configs'') (''r1'' @ ''.cfg'')) ''hostname R1''
      ?mid = (Inr (), written_world)"
    by code_simp
  have rel: "rel_path sim_backend written_world
      (joinpath (joinpath (repo_path repo_tool) ''configs'') (''r1'' @ ''.cfg''))
      = Inr ''configs/r1.cfg''"
    by code_simp
  have add: "index_add sim_backend [''configs/r1.cfg''] written_world = (Inr (), ?staged)"
    by code_simp
  have un: "untracked_files ?staged = []" by code_simp
  have first: "(commit_config sim_backend repo_tool ''r1'' ''hostname R1'' ''m1'' fresh_world
       :: (exn + unit tool_output) \<times> sim_world) =
     (Inr (ok (BackupResult \<lparr>device = ''r1'', path = ''/srv/repo/configs/r1.cfg'',
                             commit_hash = Some ''commit-1''\<rparr>)), committed_world)"
    by code_simp
  have p: "path_str (joinpath (joinpath (repo_path repo_tool) ''configs'') (''r1'' @ ''.cfg''))
      = ''/srv/repo/configs/r1.cfg''"
    by code_simp
  have "commit_config sim_backend repo_tool ''r1'' ''hostname R1'' ''m2''
           (snd (commit_config sim_backend repo_tool ''r1'' ''hostname R1'' ''m1'' fresh_world
                  :: (exn + unit tool_output) \<times> sim_world)) =
        (Inr (ok (BackupResult \<lparr>device = ''r1'',
             path = path_str (joinpath (joinpath (repo_path repo_tool) ''configs'') (''r1'' @ ''.cfg'')),
             commit_hash = None\<rparr>) :: unit tool_output),
         snd (commit_config sim_backend repo_tool ''r1'' ''hostname R1'' ''m1'' fresh_world
                  :: (exn + unit tool_output) \<times> sim_world))"
    by (rule commit_twice_no_untracked [OF repo mk wr rel add un, THEN conjunct2])
  then show ?thesis using first repo un p by simp
qed

text \<open>
  With an untracked file in the working tree, \<^verbatim>\<open>is_dirty(untracked_files=True)\<close> stays
  true, and the second of two identical commits creates a version of its own. The same
  happens without any untracked file when the commit of the first call raised the error
  that is caught: the first call returns a null hash and the second one creates the
  version.
\<close>

theorem commit_twice_counterexample:
  "fst (commit_config sim_backend repo_tool ''r1'' ''hostname R1'' ''m2''
         (snd (commit_config sim_backend repo_tool ''r1'' ''hostname R1'' ''m1'' stray_world
                :: (exn + unit tool_output) \<times> sim_world)))
     = Inr (ok (BackupResult \<lparr>device = ''r1'', path = ''/srv/repo/configs/r1.cfg'',
                              commit_hash = Some ''commit-2''\<rparr>) :: unit tool_output)
   \<and> fst (commit_config flaky_backend repo_tool ''r1'' ''hostname R1'' ''m1'' fresh_world)
     = Inr (ok (BackupResult \<lparr>device = ''r1'', path = ''/srv/repo/configs/r1.cfg'',
                              commit_hash = None\<rparr>) :: unit tool_output)
   \<and> untracked_files
        (snd (commit_config flaky_backend repo_tool ''r1'' ''hostname R1'' ''m1'' fresh_world
               :: (exn + unit tool_output) \<times> sim_world)) = []
   \<and> fst (commit_config flaky_backend repo_tool ''r1'' ''hostname R1'' ''m2''
         (snd (commit_config flaky_backend repo_tool ''r1'' ''hostname R1'' ''m1'' fresh_world
                :: (exn + unit tool_output) \<times> sim_world)))
     = Inr (ok (BackupResult \<lparr>device = ''r1'', path = ''/srv/repo/configs/r1.cfg'',
                              commit_hash = Some ''commit-1''\<rparr>) :: unit tool_output)"
  by code_simp

text \<open>
  Claim C1, amended. When the fetcher returns \<^verbatim>\<open>None\<close>, bare or as the data of a
  successful result, \<^verbatim>\<open>backup_config\<close> fails with \<^verbatim>\<open>No configuration content returned\<close>
  and leaves the world as it was: nothing is written.
\<close>
theorem backup_config_absent_content:
  assumes "config_fetcher tool dev = Inr (Raw PyNone)
         \<or> (\<exists>out. config_fetcher tool dev = Inr (Wrapped out) \<and> success out \<and> data out = PyNone)"
  shows "backup_config env json_dumps now tool dev w =
           (Inr \<lparr>success = False, data = PyNone,
                 error = Some \<lparr>message = ''No configuration content returned'', code = None,
                               details = Some [(''device'', dev)]\<rparr>\<rparr>, w)"
  using assms by (auto simp: backup_config_def fail_def)

theorem backup_config_absent_content_witness:
  "config_fetcher (backup_tool none_fetcher) ''r1'' = Inr (Raw PyNone)
   \<and> backup_config sim_backend no_json ''2024-05-01T10:00:00'' (backup_tool none_fetcher) ''r1''
        fresh_world =
       (Inr \<lparr>success = False, data = PyNone,
             error = Some \<lparr>message = ''No configuration content returned'', code = None,
                           details = Some [(''device'', ''r1'')]\<rparr>\<rparr>, fresh_world)"
proof -
  have f: "config_fetcher (backup_tool none_fetcher) ''r1'' = Inr (Raw PyNone)
         \<or> (\<exists>out. config_fetcher (backup_tool none_fetcher) ''r1'' = Inr (Wrapped out)
                \<and> success out \<and> data out = PyNone)"
    by (simp add: backup_tool_def none_fetcher_def)
  show ?thesis
    using backup_config_absent_content [OF f, of sim_backend no_json "''2024-05-01T10:00:00''" fresh_world]
    by (simp add: backup_tool_def none_fetcher_def)
qed

text \<open>
  An empty string is not \<^verbatim>\<open>None\<close>: it passes the guard of line 105, is written as an
  empty snapshot, and the call returns success.
\<close>
theorem backup_config_empty_string_counterexample:
  "config_fetcher (backup_tool empty_fetcher) ''r1'' = Inr (Raw (PyStr []))
   \<and> backup_config sim_backend no_json ''2024-05-01T10:00:00'' (backup_tool empty_fetcher) ''r1''
        fresh_world =
       (Inr \<lparr>success = True,
             data = BackupResult \<lparr>device = ''r1'', path = ''/srv/repo/configs/r1.cfg'',
                                  commit_hash = None\<rparr>,
             error = None\<rparr>, empty_snapshot_world)
   \<and> map_of (files empty_snapshot_world) (Path True [''srv'', ''repo'', ''configs'', ''r1.cfg''])
       = Some []
   \<and> config_fetcher (backup_tool wrapped_empty_fetcher) ''r1''
       = Inr (Wrapped \<lparr>success = True, data = PyStr [], error = None\<rparr>)
   \<and> backup_config sim_backend no_json ''2024-05-01T10:00:00'' (backup_tool wrapped_empty_fetcher)
        ''r1'' fresh_world =
       (Inr \<lparr>success = True,
             data = BackupResult \<lparr>device = ''r1'', path = ''/srv/repo/configs/r1.cfg'',
                                  commit_hash = None\<rparr>,
             error = None\<rparr>, empty_snapshot_world)"
  by code_simp

section \<open>Properties of the drift detector\<close>















lemma splitlines_examples:
  "splitlines [CHR ''a'', CHR 0x0D, CHR 0x0A, CHR ''b'', CHR 0x0B, CHR ''c'', CHR 0x85, CHR ''d'', CHR 0x0A]
     = [''a'', ''b'', ''c'', ''d'']"
  "splitlines [] = []"
  "splitlines [CHR 0x0A] = [[]]"
  "splitlines [CHR ''a'', CHR 0x0A, CHR 0x0A, CHR ''b''] = [''a'', [], ''b'']"
  "splitlines [CHR ''a'', CHR 0x0D] = [''a'']"
  by code_simp+



text \<open>The diff text of a returned report is present exactly when \<open>is_drifted\<close> is true.\<close>
lemma diff_present_iff_drifted:
  assumes "detect_drift eng repr tool dev = Inr out" and "success out"
    and "data out = DriftOutput rep"
  shows "(diff rep \<noteq> None) = is_drifted rep"
  using assms
  by (auto simp: detect_drift_def Let_def ok_def fail_def resolve_def
      split: sum.splits if_splits fetched.splits py_value.splits)

text \<open>
  Claim C7 fails on the code. The test of line 158 drops every line that starts with
  \<^verbatim>\<open>+++\<close> or \<^verbatim>\<open>---\<close>, and a removed line whose text starts with two dashes
  appears in the diff as such a line: the diff below has the removed line at its end,
  after the two header lines, and the report says that nothing drifted.
\<close>
theorem drift_missed_on_dashed_line:
  "unified_diff [''hostname R1'', ''-- legacy banner --''] [''hostname R1''] ''baseline'' ''running''
     = [''--- baseline'', ''+++ running'', ''@@ -1,2 +1 @@'', '' hostname R1'',
        ''--- legacy banner --'']
   \<and> detect_drift literal_engine no_repr
         (drift_tool ''hostname R1'' ''hostname R1\<newline>-- legacy banner --'' []) ''R1''
       = Inr (ok (DriftOutput \<lparr>drift_device = ''R1'', is_drifted = False, diff = None\<rparr>))"
  by code_simp

end
